theory Spec2Isabelle
  imports Main "HOL-Library.Sublist"
begin

section \<open>Python text operations used by \<^verbatim>\<open>publications/models/publication.py\<close>\<close>

text \<open>
  The model handles text as Django hands it to the model class: sequences of code points.
  A \<^typ>\<open>char\<close> stands for one code point below 256 (ASCII and Latin-1, which holds the
  four letters \<^verbatim>\<open>simplify_name\<close> folds); text with code points beyond that range is outside
  the model.
\<close>

datatype error = IndexError | ValueError | UnicodeDecodeError

text \<open>
  \<^verbatim>\<open>s.replace(old, new)\<close>: one scan from the left; where \<^verbatim>\<open>old\<close> starts, \<^verbatim>\<open>new\<close> is
  emitted and the scan goes on behind the occurrence, so the text already emitted is never
  looked at again. An empty \<^verbatim>\<open>old\<close> matches before every character and at the end.
\<close>

fun replace_py :: "string \<Rightarrow> string \<Rightarrow> string \<Rightarrow> string" where
  "replace_py old new [] = (if old = [] then new else [])"
| "replace_py old new (c # cs) =
     (if old = [] then new @ c # replace_py old new cs
      else if prefix old (c # cs) then new @ replace_py old new (drop (length old - 1) cs)
      else c # replace_py old new cs)"

text \<open>\<^verbatim>\<open>s.split(sep)\<close> for a separator of one character: empty fields are kept.\<close>

fun split_py :: "char \<Rightarrow> string \<Rightarrow> string list" where
  "split_py sep [] = [[]]"
| "split_py sep (c # cs) =
     (if c = sep then [] # split_py sep cs
      else (case split_py sep cs of
              [] \<Rightarrow> [[c]]
            | w # ws \<Rightarrow> (c # w) # ws))"

text \<open>\<^verbatim>\<open>sep.join(xs)\<close>.\<close>

fun join_py :: "string \<Rightarrow> string list \<Rightarrow> string" where
  "join_py sep [] = []"
| "join_py sep [x] = x"
| "join_py sep (x # y # ys) = x @ sep @ join_py sep (y # ys)"

text \<open>
  \<^verbatim>\<open>c.isspace()\<close> on code points below 256: TAB, LF, VT, FF, CR, the separators
  0x1C to 0x1F, the space, NEL (0x85) and the no-break space (0xA0).
\<close>

definition isspace :: "char \<Rightarrow> bool" where
  "isspace c =
     (let n = (of_char c :: nat)
      in (9 \<le> n \<and> n \<le> 13) \<or> (28 \<le> n \<and> n \<le> 32) \<or> n = 133 \<or> n = 160)"

text \<open>\<^verbatim>\<open>s.strip()\<close>: white space removed at both ends.\<close>

definition strip_py :: "string \<Rightarrow> string" where
  "strip_py s = rev (dropWhile isspace (rev (dropWhile isspace s)))"

text \<open>\<^verbatim>\<open>s.find(c)\<close>: the index of the first occurrence of the character, or -1.\<close>

fun find_py :: "char \<Rightarrow> string \<Rightarrow> int" where
  "find_py c [] = - 1"
| "find_py c (x # xs) =
     (if x = c then 0
      else (let r = find_py c xs in if r < 0 then - 1 else r + 1))"

text \<open>
  \<^verbatim>\<open>s.lower()\<close> on code points below 256: the letters A to Z and the Latin-1 capitals
  0xC0 to 0xDE (without the multiplication sign 0xD7) move up by 32.
\<close>

definition lower_char :: "char \<Rightarrow> char" where
  "lower_char c =
     (let n = (of_char c :: nat)
      in if (65 \<le> n \<and> n \<le> 90) \<or> (192 \<le> n \<and> n \<le> 214) \<or> (216 \<le> n \<and> n \<le> 222)
         then char_of (n + 32) else c)"

definition lower_py :: "string \<Rightarrow> string" where
  "lower_py s = map lower_char s"

text \<open>\<^verbatim>\<open>string.ascii_uppercase\<close>.\<close>

definition ascii_uppercase :: string where
  "ascii_uppercase = ''ABCDEFGHIJKLMNOPQRSTUVWXYZ''"

text \<open>\<^verbatim>\<open>str(n)\<close> for a non-negative integer: its decimal digits.\<close>

fun str_nat :: "nat \<Rightarrow> string" where
  "str_nat n =
     (if n < 10 then [char_of (48 + n)]
      else str_nat (n div 10) @ [char_of (48 + n mod 10)])"

text \<open>
  \<^verbatim>\<open>chr(i)\<close>: the source is Python 2 (it defines \<^verbatim>\<open>__unicode__\<close> and writes
  \<^verbatim>\<open>u'...'\<close> literals), where \<^verbatim>\<open>chr\<close> takes an argument in \<^verbatim>\<open>range(256)\<close> and raises
  ValueError for any other.
\<close>

definition chr_py :: "nat \<Rightarrow> error + char" where
  "chr_py i = (if i < 256 then Inr (char_of i) else Inl ValueError)"

definition ord_py :: "char \<Rightarrow> nat" where
  "ord_py c = of_char c"


section \<open>The publication record\<close>

text \<open>
  The database fields the constructor and \<^verbatim>\<open>key\<close> read. \<^verbatim>\<open>pk\<close> is the primary key
  (\<^verbatim>\<open>None\<close> until the record is saved); \<^verbatim>\<open>year\<close> and \<^verbatim>\<open>month\<close> are nullable.
\<close>

record fields =
  pk :: "nat option"
  title :: string
  authors :: string
  keywords_field :: string
  year :: "nat option"
  month :: "int option"

text \<open>
  The attributes \<^verbatim>\<open>__init__\<close> adds. The branch for authors wrapped in braces sets
  \<^verbatim>\<open>authors_list\<close> only: the other three attributes do not exist on such a record
  (\<^const>\<open>None\<close>).
\<close>

record publication = fields +
  authors_list :: "string list"
  authors_list_simple :: "string list option"
  authors_bibtex :: "string option"
  title_ends_with_punct :: "bool option"


section \<open>\<^verbatim>\<open>Publication.simplify_name\<close>\<close>

definition simplify_name :: "string \<Rightarrow> string" where
  "simplify_name name =
     replace_py [CHR 0xDF] ''ss''
       (replace_py [CHR 0xFC] ''ue''
         (replace_py [CHR 0xF6] ''oe''
           (replace_py [CHR 0xE4] ''ae'' (lower_py name))))"


section \<open>\<^verbatim>\<open>Publication.__init__\<close>\<close>

definition suffixes :: "string list" where
  "suffixes = [''I'', ''II'', ''III'', ''IV'', ''V'', ''VI'', ''VII'', ''VIII'', ''Jr.'', ''Sr.'']"

definition prefixes :: "string list" where
  "prefixes = [''Dr.'']"

definition prepositions :: "string list" where
  "prepositions = [''van'', ''von'', ''der'', ''de'', ''den'']"

text \<open>The post-processing of the keywords (lines 76 to 80).\<close>

definition keywords_separators :: "string \<Rightarrow> string" where
  "keywords_separators s =
     replace_py '' and '' '', ''
       (replace_py '',and '' '', ''
         (replace_py '', and '' '', ''
           (replace_py '';'' '','' s)))"

definition post_process_keywords :: "string \<Rightarrow> string" where
  "post_process_keywords s =
     join_py '', '' (map (\<lambda>k. lower_py (strip_py k)) (split_py CHR '','' (keywords_separators s)))"

text \<open>The test of line 83: a non-empty string whose first character is an opening and
  whose last character is a closing brace.\<close>

definition wrapped :: "string \<Rightarrow> bool" where
  "wrapped a = (a \<noteq> [] \<and> a ! 0 = CHR ''{'' \<and> last a = CHR ''}'')"

text \<open>The replacements of lines 87 to 90, in the order the source applies them.\<close>

definition authors_separators :: "string \<Rightarrow> string" where
  "authors_separators s =
     replace_py '';'' '',''
       (replace_py '' and '' '', ''
         (replace_py '',and '' '', ''
           (replace_py '', and '' '', '' s)))"

text \<open>Line 93: the list of authors, one entry for every field between commas.\<close>

definition tokens :: "string \<Rightarrow> string list" where
  "tokens s = map strip_py (split_py CHR '','' (authors_separators s))"

text \<open>Lines 114 to 118: a last word of at most three capitals that is no suffix holds
  initials ("Gauss CF").\<close>

definition is_initials :: "string \<Rightarrow> bool" where
  "is_initials w =
     (length w \<le> 3 \<and> w \<notin> set suffixes \<and> (\<forall>c \<in> set w. c \<in> set ascii_uppercase))"

definition move_initials :: "string list \<Rightarrow> string list" where
  "move_initials names =
     (if is_initials (last names)
      then map (\<lambda>c. [c] @ ''.'') (last names) @ butlast names
      else names)"

text \<open>Lines 121 to 126: the number of suffixes at the end of the name.\<close>

definition num_suffixes :: "string list \<Rightarrow> nat" where
  "num_suffixes names = length (takeWhile (\<lambda>name. name \<in> set suffixes) (rev names))"

text \<open>Lines 131 to 142: what the abbreviation loop stores at position \<open>j\<close>.\<close>

definition abbreviate :: "nat \<Rightarrow> string \<Rightarrow> string" where
  "abbreviate j name =
     (if j = 0 \<and> name \<in> set prefixes then name
      else if j > 0 \<and> name \<in> set prepositions then name
      else if length name > 2 \<or> (length name \<noteq> 0 \<and> last name \<noteq> CHR ''.'')
      then (let k = find_py CHR ''-'' name
            in if 0 < k + 1 \<and> k + 1 < int (length name)
               then [name ! 0] @ ''.-'' @ [name ! nat (k + 1)] @ ''.''
               else [name ! 0] @ ''.'')
      else name)"

text \<open>Line 129: the loop runs over the slice \<^verbatim>\<open>names[:-1 - num_suffixes]\<close>, which is
  empty when the list is not longer than \<^verbatim>\<open>1 + num_suffixes\<close>, and writes into
  \<^verbatim>\<open>names\<close> at the same positions.\<close>

definition abbreviate_names :: "string list \<Rightarrow> string list" where
  "abbreviate_names names =
     (let m = length names - (1 + num_suffixes names)
      in map (\<lambda>(j, name). abbreviate j name) (enumerate 0 (take m names)) @ drop m names)"

text \<open>Lines 111 to 142: the words of one author after both rewrites.\<close>

definition author_names :: "string \<Rightarrow> string list" where
  "author_names author = abbreviate_names (move_initials (split_py CHR '' '' author))"

text \<open>Lines 148 to 153: the simplified names of one author.\<close>

definition simple_names :: "string list \<Rightarrow> string list" where
  "simple_names names =
     (if length names > 1
      then map (\<lambda>name. simplify_name (join_py '' '' [name, last names]))
             (split_py CHR ''-'' (names ! 0))
      else [simplify_name (names ! 0)])"

text \<open>One round of the loop of line 107: the new entry of \<^verbatim>\<open>authors_list\<close> at this
  position and what is appended to \<^verbatim>\<open>authors_list_simple\<close>.\<close>

definition process_author :: "string \<Rightarrow> string \<times> string list" where
  "process_author author =
     (if author = [] then (author, [])
      else (let names = author_names author
            in if length names \<noteq> 0 then (join_py '' '' names, simple_names names)
               else (author, [])))"

text \<open>Lines 159 to 166: the string that overwrites \<^verbatim>\<open>authors\<close>. The list is the result
  of a split and never empty; the model gives IndexError for \<^verbatim>\<open>authors_list[0]\<close> on an
  empty one.\<close>

definition display_string :: "string list \<Rightarrow> error + string" where
  "display_string al =
     (if length al > 2 then Inr (join_py '', and '' [join_py '', '' (butlast al), last al])
      else if length al > 1 then Inr (join_py '' and '' al)
      else (case al of [] \<Rightarrow> Inl IndexError | a # _ \<Rightarrow> Inr a))"

definition ends_with_punct :: "string \<Rightarrow> bool" where
  "ends_with_punct t = (if length t > 0 then last t \<in> set ''.!?'' else False)"

text \<open>
  The constructor, from the database fields to the record with its attributes. The methods
  it adds for the styles of the database at its end (lines 168 to 176) read none of these
  attributes and change none; they are left out.
\<close>

definition init :: "fields \<Rightarrow> error + publication" where
  "init f =
     (let kw = post_process_keywords (keywords_field f)
      in if wrapped (authors f)
         then Inr \<lparr>pk = pk f, title = title f, authors = authors f, keywords_field = kw,
                   year = year f, month = month f,
                   authors_list = [butlast (tl (authors f))],
                   authors_list_simple = None, authors_bibtex = None,
                   title_ends_with_punct = None\<rparr>
         else (let processed = map process_author (tokens (authors f));
                   al = map fst processed
               in case display_string al of
                    Inl e \<Rightarrow> Inl e
                  | Inr a \<Rightarrow>
                      Inr \<lparr>pk = pk f, title = title f, authors = a, keywords_field = kw,
                           year = year f, month = month f,
                           authors_list = al,
                           authors_list_simple = Some (concat (map snd processed)),
                           authors_bibtex = Some (join_py '' and '' al),
                           title_ends_with_punct = Some (ends_with_punct (title f))\<rparr>))"


section \<open>\<^verbatim>\<open>Publication.key\<close>\<close>

text \<open>\<^verbatim>\<open>p.authors_list[0].split(' ')[-1]\<close>.\<close>

definition lastname :: "publication \<Rightarrow> error + string" where
  "lastname p =
     (case authors_list p of
        [] \<Rightarrow> Inl IndexError
      | a # _ \<Rightarrow> Inr (last (split_py CHR '' '' a)))"

text \<open>
  \<^verbatim>\<open>publication == self\<close>. Django compares model instances by primary key; the records
  of the query are saved ones, and an unsaved \<^verbatim>\<open>self\<close> (no primary key) equals none
  of them.
\<close>

definition pub_eq :: "publication \<Rightarrow> publication \<Rightarrow> bool" where
  "pub_eq p q = (pk p \<noteq> None \<and> pk p = pk q)"

text \<open>The loop of lines 211 to 215 over the records of the query, \<open>char\<close> being the
  counter.\<close>

fun scan :: "publication \<Rightarrow> string \<Rightarrow> nat \<Rightarrow> publication list \<Rightarrow> error + nat" where
  "scan self author_lastname char [] = Inr char"
| "scan self author_lastname char (p # ps) =
     (if pub_eq p self then Inr char
      else (case lastname p of
              Inl e \<Rightarrow> Inl e
            | Inr l \<Rightarrow> scan self author_lastname (if l = author_lastname then char + 1 else char) ps))"

text \<open>\<^verbatim>\<open>str(self.year)\<close>; a missing year prints as \<^verbatim>\<open>None\<close>.\<close>

definition str_year :: "nat option \<Rightarrow> string" where
  "str_year y = (case y of None \<Rightarrow> ''None'' | Some n \<Rightarrow> str_nat n)"

text \<open>
  The last operand of line 217: the text built so far is unicode text and \<^verbatim>\<open>chr(char)\<close>
  a byte string, which the concatenation decodes as ASCII; a byte of 128 or more raises
  UnicodeDecodeError.
\<close>

definition append_chr :: "string \<Rightarrow> char \<Rightarrow> error + string" where
  "append_chr text c =
     (if (of_char c :: nat) < 128 then Inr (text @ [c]) else Inl UnicodeDecodeError)"

text \<open>
  \<^verbatim>\<open>key\<close>; \<open>publications\<close> is the result of the query of lines 203 to 205, the saved
  records of the same year whose authors contain the last name, ordered by month and
  primary key.
\<close>

definition key :: "publication \<Rightarrow> publication list \<Rightarrow> error + string" where
  "key self publications =
     (case lastname self of
        Inl e \<Rightarrow> Inl e
      | Inr author_lastname \<Rightarrow>
          (case scan self author_lastname (ord_py CHR ''a'') publications of
             Inl e \<Rightarrow> Inl e
           | Inr char \<Rightarrow>
               (case chr_py char of
                  Inl e \<Rightarrow> Inl e
                | Inr c \<Rightarrow> append_chr (author_lastname @ str_year (year self)) c)))"

text \<open>
  The order of the query, \<^verbatim>\<open>order_by('month', 'id')\<close>, for records that have a month
  and a primary key: month ascending, then primary key ascending.
\<close>

definition month_id_le :: "publication \<Rightarrow> publication \<Rightarrow> bool" where
  "month_id_le p q =
     (case (month p, pk p, month q, pk q) of
        (Some m, Some i, Some m', Some i') \<Rightarrow> m < m' \<or> (m = m' \<and> i \<le> i')
      | _ \<Rightarrow> False)"

definition ordered_by_month_id :: "publication list \<Rightarrow> bool" where
  "ordered_by_month_id ps = sorted_wrt month_id_le ps"


section \<open>Example records\<close>

text \<open>A record as the database hands it to the constructor, with the given authors.\<close>

definition example_fields :: "string \<Rightarrow> fields" where
  "example_fields a =
     \<lparr>pk = None, title = ''On numbers'', authors = a, keywords_field = ''algebra'',
      year = Some 2020, month = Some 1\<rparr>"

text \<open>A saved record of J. Smith from 2020 with the given primary key and month, before
  and after the constructor.\<close>

definition smith_fields :: "nat \<Rightarrow> int \<Rightarrow> fields" where
  "smith_fields i m =
     \<lparr>pk = Some i, title = ''On numbers'', authors = ''John Smith'', keywords_field = ''algebra'',
      year = Some 2020, month = Some m\<rparr>"

definition smith :: "nat \<Rightarrow> int \<Rightarrow> publication" where
  "smith i m =
     \<lparr>pk = Some i, title = ''On numbers'', authors = ''J. Smith'', keywords_field = ''algebra'',
      year = Some 2020, month = Some m, authors_list = [''J. Smith''],
      authors_list_simple = Some [''j. smith''], authors_bibtex = Some ''J. Smith'',
      title_ends_with_punct = Some False\<rparr>"


text \<open>
  Notions for statements about names that are abbreviated already. A name has a word when
  the split at the spaces, the one line 111 makes, gives it. An initial is one character
  and a full stop; capitals are one to three capital letters, as in "NG" or "MD".
\<close>

definition has_word :: "string \<Rightarrow> string \<Rightarrow> bool" where
  "has_word w name = (w \<in> set (split_py CHR '' '' name))"

definition initial :: "string \<Rightarrow> bool" where
  "initial w = (length w = 2 \<and> last w = CHR ''.'')"

definition capitals :: "string \<Rightarrow> bool" where
  "capitals w =
     (w \<noteq> [] \<and> length w \<le> 3 \<and> (\<forall>c \<in> set w. c \<in> set ''ABCDEFGHIJKLMNOPQRSTUVWXYZ''))"

text \<open>
  The words of a name that the abbreviation loop of line 129 visits, each with its
  position: all but the last name and the suffixes behind it. Such a word is settled when
  it is an initial, the title "Dr." in the first place, or one of the prepositions behind
  the first place.
\<close>

definition given_words :: "string \<Rightarrow> (nat \<times> string) list" where
  "given_words name =
     (let names = split_py CHR '' '' name
      in enumerate 0 (take (length names - (1 + num_suffixes names)) names))"

definition settled :: "nat \<Rightarrow> string \<Rightarrow> bool" where
  "settled j w =
     (initial w \<or> (j = 0 \<and> w \<in> set prefixes) \<or> (0 < j \<and> w \<in> set prepositions))"

text \<open>
  A name is abbreviated already, in the form "Initial. Initial. Lastname" the
  specification gives for the names of the authors list, when every word before the last
  name and its suffixes is settled. Read widely, a name is abbreviated when every such
  word is settled or some other abbreviation, capitals.
\<close>

definition already_abbreviated :: "string \<Rightarrow> bool" where
  "already_abbreviated name = (\<forall>(j, w) \<in> set (given_words name). settled j w)"

definition widely_abbreviated :: "string \<Rightarrow> bool" where
  "widely_abbreviated name =
     (\<forall>(j, w) \<in> set (given_words name). settled j w \<or> capitals w)"

text \<open>
  The folding of a simplified name as the specification words it: the name in lower
  case, with a-umlaut, o-umlaut, u-umlaut and sharp s replaced by "ae", "oe", "ue" and
  "ss" and every other character as it is. It is compared with
  \<^const>\<open>simplify_name\<close>, the translation of the source.
\<close>

definition spec_fold :: "char \<Rightarrow> string" where
  "spec_fold c =
     (if c = CHR 0xE4 then ''ae''
      else if c = CHR 0xF6 then ''oe''
      else if c = CHR 0xFC then ''ue''
      else if c = CHR 0xDF then ''ss''
      else [c])"

definition spec_simplify :: "string \<Rightarrow> string" where
  "spec_simplify name = concat (map spec_fold (lower_py name))"

text \<open>The authors string "Hans-Juergen Mueller" written with the letter u-umlaut (code
  point 0xFC) in both places, and the name the constructor makes of it.\<close>

definition umlaut_authors :: string where
  "umlaut_authors = ''Hans-J'' @ [CHR 0xFC] @ ''rgen M'' @ [CHR 0xFC] @ ''ller''"

definition umlaut_name :: string where
  "umlaut_name = ''H.-J. M'' @ [CHR 0xFC] @ ''ller''"

text \<open>Twenty-six saved records of J. Smith from January 2020, primary keys 1 to 26.\<close>

definition smith_crowd :: "publication list" where
  "smith_crowd = map (\<lambda>i. smith i 1) [1..<27]"


section \<open>The constructor returns a record\<close>

lemma split_py_not_Nil: "split_py sep s \<noteq> []"
  by (induction s) (auto split: list.splits)

lemma tokens_not_Nil: "tokens s \<noteq> []"
  by (simp add: tokens_def split_py_not_Nil)

lemma display_string_total: "al \<noteq> [] \<Longrightarrow> \<exists>a. display_string al = Inr a"
  by (cases al) (auto simp: display_string_def)

lemma init_wrapped:
  "wrapped (authors f) \<Longrightarrow>
   init f = Inr \<lparr>pk = pk f, title = title f, authors = authors f,
                 keywords_field = post_process_keywords (keywords_field f),
                 year = year f, month = month f,
                 authors_list = [butlast (tl (authors f))],
                 authors_list_simple = None, authors_bibtex = None,
                 title_ends_with_punct = None\<rparr>"
  by (simp add: init_def Let_def)

lemma init_plain:
  assumes "\<not> wrapped (authors f)"
  shows "\<exists>a. display_string (map (fst \<circ> process_author) (tokens (authors f))) = Inr a \<and>
     init f = Inr \<lparr>pk = pk f, title = title f, authors = a,
                 keywords_field = post_process_keywords (keywords_field f),
                 year = year f, month = month f,
                 authors_list = map (fst \<circ> process_author) (tokens (authors f)),
                 authors_list_simple =
                   Some (concat (map (snd \<circ> process_author) (tokens (authors f)))),
                 authors_bibtex =
                   Some (join_py '' and '' (map (fst \<circ> process_author) (tokens (authors f)))),
                 title_ends_with_punct = Some (ends_with_punct (title f))\<rparr>"
proof -
  have "map (fst \<circ> process_author) (tokens (authors f)) \<noteq> []"
    by (simp add: tokens_not_Nil)
  then obtain a where
    "display_string (map (fst \<circ> process_author) (tokens (authors f))) = Inr a"
    using display_string_total by blast
  with assms show ?thesis
    by (simp add: init_def Let_def)
qed

lemma wrapped_iff: "wrapped a \<longleftrightarrow> (\<exists>x. a = ''{'' @ x @ ''}'')"
proof
  assume w: "wrapped a"
  then obtain c cs where a: "a = c # cs" by (cases a) (auto simp: wrapped_def)
  with w have c: "c = CHR ''{''" and l: "last (c # cs) = CHR ''}''" by (auto simp: wrapped_def)
  from l c have ne: "cs \<noteq> []" by auto
  then have "cs = butlast cs @ [last cs]" by simp
  with a c l ne show "\<exists>x. a = ''{'' @ x @ ''}''"
    by (metis append_Cons append_Nil last_ConsR)
next
  assume "\<exists>x. a = ''{'' @ x @ ''}''"
  then show "wrapped a" by (auto simp: wrapped_def)
qed


section \<open>Authors wrapped in braces\<close>

text \<open>
  C2, as the code has it. The test for the braces reads the authors string as it is stored:
  its first and its last character, without trimming. For every authors string that is an
  opening brace, an interior and a closing brace, the constructor returns a record whose
  authors list has one entry, the interior, untouched; no simplified names and no BibTeX
  string are computed.
\<close>

theorem braces_interior:
  assumes "authors f = ''{'' @ interior @ ''}''"
  shows "\<exists>p. init f = Inr p \<and> authors_list p = [interior] \<and>
             authors_list_simple p = None \<and> authors_bibtex p = None"
proof -
  from assms have "wrapped (authors f)" by (auto simp: wrapped_iff)
  from init_wrapped [OF this] assms show ?thesis
    by (simp add: butlast_append)
qed

theorem braces_interior_witness:
  "\<exists>p. init (example_fields ''{Special Group Name}'') = Inr p \<and>
       authors_list p = [''Special Group Name''] \<and>
       authors_list_simple p = None \<and> authors_bibtex p = None"
  using braces_interior [of "example_fields ''{Special Group Name}''" "''Special Group Name''"]
  by (simp add: example_fields_def)

text \<open>
  C2 as the specification words it, with the braces looked for in the trimmed string, fails:
  behind a leading space the braces are not seen, and the name is split and abbreviated
  like any other.
\<close>

lemma init_leading_space:
  "init (example_fields '' {Ab Cd}'') =
     Inr \<lparr>pk = None, title = ''On numbers'', authors = ''{. Cd}'', keywords_field = ''algebra'',
          year = Some 2020, month = Some 1, authors_list = [''{. Cd}''],
          authors_list_simple = Some [''{. cd}''], authors_bibtex = Some ''{. Cd}'',
          title_ends_with_punct = Some False\<rparr>"
  by code_simp

lemma strip_leading_space: "strip_py '' {Ab Cd}'' = ''{Ab Cd}''"
  by code_simp

theorem trimmed_braces_counterexample:
  "\<not> (wrapped (strip_py (authors (example_fields '' {Ab Cd}''))) \<longrightarrow>
      (\<exists>p. init (example_fields '' {Ab Cd}'') = Inr p \<and>
           authors_list p = [butlast (tl (strip_py (authors (example_fields '' {Ab Cd}''))))]))"
  by (simp add: init_leading_space) (simp add: example_fields_def strip_leading_space wrapped_def)

text \<open>
  C10. For every authors string wrapped in braces the constructor leaves the stored authors
  string as it was given, braces included: the rewrite of lines 159 to 166 belongs to the
  other branch.
\<close>

theorem wrapped_authors_unchanged:
  "wrapped (authors f) \<Longrightarrow> \<exists>p. init f = Inr p \<and> authors p = authors f"
  by (simp add: init_wrapped)

theorem wrapped_authors_unchanged_witness:
  "wrapped ''{Special Group Name}'' \<and>
   (\<exists>p. init (example_fields ''{Special Group Name}'') = Inr p \<and>
        authors p = ''{Special Group Name}'')"
  using wrapped_authors_unchanged [of "example_fields ''{Special Group Name}''"]
  by (simp add: example_fields_def wrapped_def)

section \<open>The rewritten authors string\<close>

lemma init_three_authors:
  "init (example_fields ''Alice Smith, Bob Jones, Carol Lee'') =
     Inr \<lparr>pk = None, title = ''On numbers'', authors = ''A. Smith, B. Jones, and C. Lee'',
          keywords_field = ''algebra'', year = Some 2020, month = Some 1,
          authors_list = [''A. Smith'', ''B. Jones'', ''C. Lee''],
          authors_list_simple = Some [''a. smith'', ''b. jones'', ''c. lee''],
          authors_bibtex = Some ''A. Smith and B. Jones and C. Lee'',
          title_ends_with_punct = Some False\<rparr>"
  by code_simp

lemma display_string_cases:
  "display_string al = Inr a \<Longrightarrow>
   al \<noteq> [] \<and>
   a = (if 3 \<le> length al then join_py '', '' (butlast al) @ '', and '' @ last al
        else if length al = 2 then al ! 0 @ '' and '' @ al ! 1
        else al ! 0)"
  unfolding display_string_def
  by (cases al; cases "tl al"; cases "tl (tl al)") (auto split: if_splits)

text \<open>
  C7. For every authors string that is not wrapped in braces the constructor returns a
  record, its authors list is not empty and the rewritten authors string is: with three or
  more authors, all but the last joined by a comma and a space, then a comma, "and" and the
  last author; with two authors, both joined by "and"; with one author, that name. The three
  authors "Alice Smith, Bob Jones, Carol Lee" are rewritten to
  "A. Smith, B. Jones, and C. Lee".
\<close>

theorem display_rewrite:
  "(\<not> wrapped (authors f) \<longrightarrow>
     (\<exists>p. init f = Inr p \<and> authors_list p \<noteq> [] \<and>
          authors p =
            (if 3 \<le> length (authors_list p)
             then join_py '', '' (butlast (authors_list p)) @ '', and '' @ last (authors_list p)
             else if length (authors_list p) = 2
             then authors_list p ! 0 @ '' and '' @ authors_list p ! 1
             else authors_list p ! 0))) \<and>
   (\<exists>p. init (example_fields ''Alice Smith, Bob Jones, Carol Lee'') = Inr p \<and>
        authors p = ''A. Smith, B. Jones, and C. Lee'')"
proof (intro conjI impI)
  assume nw: "\<not> wrapped (authors f)"
  from init_plain [OF nw] obtain a where
    d: "display_string (map (fst \<circ> process_author) (tokens (authors f))) = Inr a"
    and i: "init f = Inr \<lparr>pk = pk f, title = title f, authors = a,
                 keywords_field = post_process_keywords (keywords_field f),
                 year = year f, month = month f,
                 authors_list = map (fst \<circ> process_author) (tokens (authors f)),
                 authors_list_simple =
                   Some (concat (map (snd \<circ> process_author) (tokens (authors f)))),
                 authors_bibtex =
                   Some (join_py '' and '' (map (fst \<circ> process_author) (tokens (authors f)))),
                 title_ends_with_punct = Some (ends_with_punct (title f))\<rparr>"
    by blast
  from display_string_cases [OF d] i
  show "\<exists>p. init f = Inr p \<and> authors_list p \<noteq> [] \<and>
          authors p =
            (if 3 \<le> length (authors_list p)
             then join_py '', '' (butlast (authors_list p)) @ '', and '' @ last (authors_list p)
             else if length (authors_list p) = 2
             then authors_list p ! 0 @ '' and '' @ authors_list p ! 1
             else authors_list p ! 0)"
    by simp
next
  show "\<exists>p. init (example_fields ''Alice Smith, Bob Jones, Carol Lee'') = Inr p \<and>
        authors p = ''A. Smith, B. Jones, and C. Lee''"
    by (simp add: init_three_authors)
qed

lemma not_wrapped_two: "\<not> wrapped ''Ann Lee and Bob Ray''"
  by (simp add: wrapped_def)

lemma init_two_authors:
  "init (example_fields ''Ann Lee and Bob Ray'') =
     Inr \<lparr>pk = None, title = ''On numbers'', authors = ''A. Lee and B. Ray'',
          keywords_field = ''algebra'', year = Some 2020, month = Some 1,
          authors_list = [''A. Lee'', ''B. Ray''],
          authors_list_simple = Some [''a. lee'', ''b. ray''],
          authors_bibtex = Some ''A. Lee and B. Ray'',
          title_ends_with_punct = Some False\<rparr>"
  by code_simp

theorem display_rewrite_witness:
  "\<not> wrapped (authors (example_fields ''Ann Lee and Bob Ray'')) \<and>
   (\<exists>p. init (example_fields ''Ann Lee and Bob Ray'') = Inr p \<and>
        authors_list p = [''A. Lee'', ''B. Ray''] \<and> authors p = ''A. Lee and B. Ray'')"
  using display_rewrite [of "example_fields ''Ann Lee and Bob Ray''"]
  by (simp add: init_two_authors) (simp add: example_fields_def not_wrapped_two)

section \<open>Tokens and the entries of the authors list\<close>

lemma isspace_space: "isspace CHR '' ''"
  by (simp add: isspace_def)

lemma strip_py_last: "strip_py x \<noteq> [] \<Longrightarrow> \<not> isspace (last (strip_py x))"
  unfolding strip_py_def
  by (simp add: last_rev hd_dropWhile)

lemma strip_py_hd: "strip_py x \<noteq> [] \<Longrightarrow> \<not> isspace (hd (strip_py x))"
proof -
  assume ne: "strip_py x \<noteq> []"
  let ?y = "dropWhile isspace x"
  from ne have y: "?y \<noteq> []" by (cases "?y = []") (simp_all add: strip_py_def)
  then have h: "\<not> isspace (hd ?y)" by (simp add: hd_dropWhile)
  have "strip_py x = rev (dropWhile isspace (rev ?y))" by (simp add: strip_py_def)
  moreover have "rev (dropWhile isspace (rev ?y)) = hd ?y # tl (rev (dropWhile isspace (rev ?y)))"
  proof -
    obtain c cs where c: "?y = c # cs" using y by (cases ?y) auto
    with h have nc: "\<not> isspace c" by simp
    have "rev (dropWhile isspace (rev cs @ [c])) = c # rev (dropWhile isspace (rev cs))"
      using nc by (simp add: dropWhile_append)
    then show ?thesis using c by simp
  qed
  ultimately show ?thesis using h by (metis list.sel(1))
qed

lemma split_py_last: "s \<noteq> [] \<Longrightarrow> last s \<noteq> sep \<Longrightarrow> last (split_py sep s) \<noteq> []"
proof (induction s)
  case Nil
  then show ?case by simp
next
  case (Cons c cs)
  show ?case
  proof (cases "cs = []")
    case True
    with Cons.prems show ?thesis by simp
  next
    case False
    with Cons have ih: "last (split_py sep cs) \<noteq> []" by simp
    obtain w ws where w: "split_py sep cs = w # ws"
      using split_py_not_Nil [of sep cs] by (cases "split_py sep cs") auto
    with ih show ?thesis by (auto split: list.splits)
  qed
qed

lemma join_py_Nil: "x \<in> set xs \<Longrightarrow> x \<noteq> [] \<Longrightarrow> join_py sep xs \<noteq> []"
  by (induction sep xs rule: join_py.induct) auto

lemma abbreviate_Nil: "abbreviate j name = [] \<longleftrightarrow> name = []"
  by (auto simp: abbreviate_def Let_def)

lemma length_abbreviate_names: "length (abbreviate_names names) = length names"
  by (simp add: abbreviate_names_def Let_def)

lemma abbreviate_names_nth:
  assumes "i < length names"
  shows "abbreviate_names names ! i =
     (if i < length names - (1 + num_suffixes names) then abbreviate i (names ! i)
      else names ! i)"
proof -
  let ?m = "length names - (1 + num_suffixes names)"
  have l: "length (map (\<lambda>(j, name). abbreviate j name) (enumerate 0 (take ?m names))) = ?m"
    by simp
  show ?thesis
  proof (cases "i < ?m")
    case True
    then have "enumerate 0 (take ?m names) ! i = (i, names ! i)"
      by (simp add: nth_enumerate_eq)
    with True show ?thesis
      by (simp add: abbreviate_names_def Let_def nth_append)
  next
    case False
    with assms show ?thesis
      using l by (simp add: abbreviate_names_def Let_def nth_append)
  qed
qed

lemma abbreviate_names_keeps_word:
  assumes "w \<in> set names" "w \<noteq> []"
  shows "\<exists>v \<in> set (abbreviate_names names). v \<noteq> []"
proof -
  from assms obtain i where i: "i < length names" "names ! i = w"
    by (auto simp: in_set_conv_nth)
  then have "abbreviate_names names ! i \<noteq> []"
    using assms(2) by (simp add: abbreviate_names_nth abbreviate_Nil)
  moreover from i have "abbreviate_names names ! i \<in> set (abbreviate_names names)"
    by (simp add: length_abbreviate_names)
  ultimately show ?thesis by blast
qed

lemma move_initials_keeps_word:
  assumes "names \<noteq> []" "last names \<noteq> []"
  shows "\<exists>v \<in> set (move_initials names). v \<noteq> []"
proof (cases "is_initials (last names)")
  case True
  from assms(2) obtain c cs where "last names = c # cs" by (cases "last names") auto
  with True show ?thesis by (simp add: move_initials_def)
next
  case False
  with assms show ?thesis
    by (auto simp: move_initials_def intro: bexI [of _ "last names"])
qed

lemma process_author_token:
  assumes "t = strip_py x" "t \<noteq> []"
  shows "fst (process_author t) \<noteq> []"
proof -
  from assms strip_py_last [of x] isspace_space have "last t \<noteq> CHR '' ''" by auto
  with assms(2) have "last (split_py CHR '' '' t) \<noteq> []" by (rule split_py_last)
  then obtain v where "v \<in> set (move_initials (split_py CHR '' '' t))" "v \<noteq> []"
    using move_initials_keeps_word [OF split_py_not_Nil] by blast
  then obtain u where u: "u \<in> set (author_names t)" "u \<noteq> []"
    using abbreviate_names_keeps_word unfolding author_names_def by blast
  then have "join_py '' '' (author_names t) \<noteq> []" by (rule join_py_Nil)
  with u assms(2) show ?thesis
    by (auto simp: process_author_def Let_def)
qed

lemma process_author_Nil: "process_author [] = ([], [])"
  by (simp add: process_author_def)

lemma concat_map_skip:
  "(\<And>x. \<not> P x \<Longrightarrow> g x = []) \<Longrightarrow> concat (map g xs) = concat (map g (filter P xs))"
  by (induction xs) auto

text \<open>
  C4, as the code has it. The loop of line 107 skips an empty token (\<^verbatim>\<open>continue\<close>) and
  nothing removes it from the list: for every authors string that is not wrapped in braces
  the authors list has one entry for every token, the entry of a token is empty exactly
  when the token is empty, and the simplified names come from the non-empty tokens only.
\<close>

theorem empty_tokens_kept:
  assumes "\<not> wrapped (authors f)"
  shows "\<exists>p. init f = Inr p \<and>
     length (authors_list p) = length (tokens (authors f)) \<and>
     (\<forall>i < length (tokens (authors f)).
        (authors_list p ! i = [] \<longleftrightarrow> tokens (authors f) ! i = [])) \<and>
     authors_list_simple p =
       Some (concat (map (snd \<circ> process_author) (filter (\<lambda>t. t \<noteq> []) (tokens (authors f)))))"
proof -
  let ?ts = "tokens (authors f)"
  from init_plain [OF assms] obtain p where
    p: "init f = Inr p" "authors_list p = map (fst \<circ> process_author) ?ts"
      "authors_list_simple p = Some (concat (map (snd \<circ> process_author) ?ts))"
    by auto
  have "\<forall>i < length ?ts. (authors_list p ! i = [] \<longleftrightarrow> ?ts ! i = [])"
  proof (intro allI impI)
    fix i assume i: "i < length ?ts"
    then obtain x where "?ts ! i = strip_py x"
      by (auto simp: tokens_def)
    then have "?ts ! i \<noteq> [] \<Longrightarrow> fst (process_author (?ts ! i)) \<noteq> []"
      using process_author_token by blast
    with i show "authors_list p ! i = [] \<longleftrightarrow> ?ts ! i = []"
      by (auto simp: p(2) process_author_Nil)
  qed
  moreover have "concat (map (snd \<circ> process_author) ?ts) =
     concat (map (snd \<circ> process_author) (filter (\<lambda>t. t \<noteq> []) ?ts))"
    by (rule concat_map_skip) (simp add: process_author_Nil)
  ultimately show ?thesis using p by simp
qed

lemma init_double_comma:
  "init (example_fields ''A. Lee,, B. Ray'') =
     Inr \<lparr>pk = None, title = ''On numbers'', authors = ''A. Lee, , and B. Ray'',
          keywords_field = ''algebra'', year = Some 2020, month = Some 1,
          authors_list = [''A. Lee'', [], ''B. Ray''],
          authors_list_simple = Some [''a. lee'', ''b. ray''],
          authors_bibtex = Some ''A. Lee and  and B. Ray'',
          title_ends_with_punct = Some False\<rparr>"
  by code_simp

lemma tokens_double_comma: "tokens ''A. Lee,, B. Ray'' = [''A. Lee'', [], ''B. Ray'']"
  by code_simp

lemma not_wrapped_double_comma: "\<not> wrapped ''A. Lee,, B. Ray''"
  by (simp add: wrapped_def)

theorem empty_tokens_kept_witness:
  "\<not> wrapped (authors (example_fields ''A. Lee,, B. Ray'')) \<and>
   (\<exists>p. init (example_fields ''A. Lee,, B. Ray'') = Inr p \<and>
        length (authors_list p) = 3 \<and> authors_list p ! 1 = [] \<and>
        authors_list_simple p = Some [''a. lee'', ''b. ray''])"
  using empty_tokens_kept [of "example_fields ''A. Lee,, B. Ray''"]
  by (simp add: init_double_comma) (simp add: example_fields_def not_wrapped_double_comma)

text \<open>
  C4 as the specification words it, with no empty entries in the resulting list, fails on
  two consecutive commas.
\<close>

theorem empty_tokens_dropped_counterexample:
  "\<not> (\<not> wrapped (authors (example_fields ''A. Lee,, B. Ray'')) \<longrightarrow>
      (\<exists>p. init (example_fields ''A. Lee,, B. Ray'') = Inr p \<and> [] \<notin> set (authors_list p)))"
  by (simp add: init_double_comma) (simp add: example_fields_def not_wrapped_double_comma)

section \<open>Initials behind the surname\<close>

lemma is_initials_iff:
  "is_initials w \<longleftrightarrow>
     length w \<le> 3 \<and>
     w \<notin> {''I'', ''II'', ''III'', ''IV'', ''V'', ''VI'', ''VII'', ''VIII'', ''Jr.'', ''Sr.''} \<and>
     (\<forall>c \<in> set w. c \<in> set ''ABCDEFGHIJKLMNOPQRSTUVWXYZ'')"
  by (simp add: is_initials_def suffixes_def ascii_uppercase_def)

lemma abbreviate_initial: "abbreviate j [c, CHR ''.''] = [c, CHR ''.'']"
  by (simp add: abbreviate_def prefixes_def prepositions_def)

lemma init_gauss:
  "init (example_fields ''Gauss CF'') =
     Inr \<lparr>pk = None, title = ''On numbers'', authors = ''C. F. Gauss'',
          keywords_field = ''algebra'', year = Some 2020, month = Some 1,
          authors_list = [''C. F. Gauss''],
          authors_list_simple = Some [''c. gauss''],
          authors_bibtex = Some ''C. F. Gauss'',
          title_ends_with_punct = Some False\<rparr>"
  by code_simp

text \<open>
  C5. For every author token whose last word has at most three characters, is none of the
  suffixes I, II, III, IV, V, VI, VII, VIII, Jr., Sr. and consists of capital ASCII letters
  only, every character of that word becomes a word of its own with a full stop behind it,
  and these words are put in front of the remaining words; the abbreviation that follows
  leaves them as they are. The token "Gauss CF" gives the name "C. F. Gauss".
\<close>

theorem initials_moved:
  "(w = last (split_py CHR '' '' author) \<and> length w \<le> 3 \<and>
    w \<notin> {''I'', ''II'', ''III'', ''IV'', ''V'', ''VI'', ''VII'', ''VIII'', ''Jr.'', ''Sr.''} \<and>
    (\<forall>c \<in> set w. c \<in> set ''ABCDEFGHIJKLMNOPQRSTUVWXYZ'') \<longrightarrow>
      move_initials (split_py CHR '' '' author) =
        map (\<lambda>c. [c, CHR ''.'']) w @ butlast (split_py CHR '' '' author) \<and>
      author_names author =
        abbreviate_names (map (\<lambda>c. [c, CHR ''.'']) w @ butlast (split_py CHR '' '' author)) \<and>
      take (length w) (author_names author) = map (\<lambda>c. [c, CHR ''.'']) w) \<and>
   (\<exists>p. init (example_fields ''Gauss CF'') = Inr p \<and> authors_list p = [''C. F. Gauss''] \<and>
        authors p = ''C. F. Gauss'')"
proof (intro conjI impI)
  assume a: "w = last (split_py CHR '' '' author) \<and> length w \<le> 3 \<and>
    w \<notin> {''I'', ''II'', ''III'', ''IV'', ''V'', ''VI'', ''VII'', ''VIII'', ''Jr.'', ''Sr.''} \<and>
    (\<forall>c \<in> set w. c \<in> set ''ABCDEFGHIJKLMNOPQRSTUVWXYZ'')"
  let ?names = "split_py CHR '' '' author"
  let ?moved = "map (\<lambda>c. [c, CHR ''.'']) w @ butlast ?names"
  from a have w: "w = last ?names" by (rule conjunct1)
  from a have "is_initials w" unfolding is_initials_iff by (rule conjunct2)
  with w have "is_initials (last ?names)" by (simp only:)
  with w show m: "move_initials ?names = ?moved"
    by (simp add: move_initials_def)
  then show n: "author_names author = abbreviate_names ?moved"
    by (simp add: author_names_def)
  show "take (length w) (author_names author) = map (\<lambda>c. [c, CHR ''.'']) w"
  proof (rule nth_equalityI)
    show "length (take (length w) (author_names author)) = length (map (\<lambda>c. [c, CHR ''.'']) w)"
      by (simp add: n length_abbreviate_names)
  next
    fix i assume "i < length (take (length w) (author_names author))"
    then have i: "i < length w" by simp
    then have lt: "i < length ?moved" by simp
    from i have mi: "?moved ! i = [w ! i, CHR ''.'']" by (simp add: nth_append)
    have "abbreviate i [w ! i, CHR ''.''] = [w ! i, CHR ''.'']"
      by (rule abbreviate_initial)
    with mi have "abbreviate_names ?moved ! i = [w ! i, CHR ''.'']"
      by (simp only: abbreviate_names_nth [OF lt] if_cancel)
    with i show "take (length w) (author_names author) ! i = map (\<lambda>c. [c, CHR ''.'']) w ! i"
      by (simp add: n)
  qed
next
  show "\<exists>p. init (example_fields ''Gauss CF'') = Inr p \<and> authors_list p = [''C. F. Gauss''] \<and>
        authors p = ''C. F. Gauss''"
    by (simp add: init_gauss)
qed

lemma split_gauss: "split_py CHR '' '' ''Gauss CF'' = [''Gauss'', ''CF'']"
  by code_simp

lemma author_names_gauss: "author_names ''Gauss CF'' = [''C.'', ''F.'', ''Gauss'']"
  by code_simp

theorem initials_moved_witness:
  "move_initials (split_py CHR '' '' ''Gauss CF'') = [''C.'', ''F.'', ''Gauss''] \<and>
   take 2 (author_names ''Gauss CF'') = [''C.'', ''F.'']"
  using initials_moved [of "''CF''" "''Gauss CF''"]
  by (simp add: split_gauss author_names_gauss)


section \<open>Hyphenated given names\<close>

lemma find_py_takeWhile:
  "find_py c s = (if c \<in> set s then int (length (takeWhile (\<lambda>x. x \<noteq> c) s)) else - 1)"
  by (induction s) (simp_all add: Let_def)

lemma length_takeWhile_first:
  "i < length s \<Longrightarrow> s ! i = c \<Longrightarrow> length (takeWhile (\<lambda>x. x \<noteq> c) s) \<le> i"
proof (rule ccontr)
  assume i: "i < length s" "s ! i = c" and "\<not> length (takeWhile (\<lambda>x. x \<noteq> c) s) \<le> i"
  then have "i < length (takeWhile (\<lambda>x. x \<noteq> c) s)" by simp
  then have "takeWhile (\<lambda>x. x \<noteq> c) s ! i \<noteq> c"
    using nth_mem set_takeWhileD by fastforce
  moreover have "takeWhile (\<lambda>x. x \<noteq> c) s ! i = s ! i"
    using \<open>i < length (takeWhile (\<lambda>x. x \<noteq> c) s)\<close> by (rule takeWhile_nth)
  ultimately show False using i by simp
qed

lemma init_sartre:
  "init (example_fields ''Jean-Paul Sartre'') =
     Inr \<lparr>pk = None, title = ''On numbers'', authors = ''J.-P. Sartre'',
          keywords_field = ''algebra'', year = Some 2020, month = Some 1,
          authors_list = [''J.-P. Sartre''],
          authors_list_simple = Some [''j. sartre'', ''p. sartre''],
          authors_bibtex = Some ''J.-P. Sartre'',
          title_ends_with_punct = Some False\<rparr>"
  by code_simp

lemma abbreviate_dash:
  assumes "0 < i" "i + 1 < length name" "name ! i = CHR ''-''"
  shows "abbreviate j name =
     [name ! 0] @ ''.-'' @ [name ! Suc (length (takeWhile (\<lambda>c. c \<noteq> CHR ''-'') name))] @ ''.''"
proof -
  from assms have mem: "CHR ''-'' \<in> set name" by (metis Suc_eq_plus1 Suc_lessD nth_mem)
  from assms have k: "length (takeWhile (\<lambda>c. c \<noteq> CHR ''-'') name) \<le> i"
    by (intro length_takeWhile_first) auto
  from mem have "name \<notin> set prefixes" "name \<notin> set prepositions"
    by (auto simp: prefixes_def prepositions_def)
  moreover from assms have "length name > 2" by simp
  ultimately show ?thesis
    using k assms(2) mem by (simp add: abbreviate_def find_py_takeWhile Let_def nat_add_distrib)
qed

text \<open>The four replacements of \<^const>\<open>simplify_name\<close> fold character by character, as the
  specification says.\<close>

lemma replace_py_char:
  "replace_py [c] new s = concat (map (\<lambda>x. if x = c then new else [x]) s)"
  by (induction s) auto

lemma concat_map_concat:
  "concat (map g (concat (map f s))) = concat (map (\<lambda>x. concat (map g (f x))) s)"
  by (induction s) auto

lemma simplify_name_spec: "simplify_name name = spec_simplify name"
proof -
  have "simplify_name name =
      concat (map (\<lambda>x. concat (map (\<lambda>x. if x = CHR 0xDF then ''ss'' else [x])
        (concat (map (\<lambda>x. if x = CHR 0xFC then ''ue'' else [x])
          (concat (map (\<lambda>x. if x = CHR 0xF6 then ''oe'' else [x])
            (if x = CHR 0xE4 then ''ae'' else [x]))))))) (lower_py name))"
    by (simp only: simplify_name_def replace_py_char concat_map_concat)
  also have "\<dots> = concat (map spec_fold (lower_py name))"
    by (rule arg_cong [where f = concat], rule map_cong, rule refl) (simp add: spec_fold_def)
  finally show ?thesis by (simp only: spec_simplify_def)
qed

lemma dash_word_not_skipped:
  "CHR ''-'' \<in> set name \<Longrightarrow> name \<notin> set prefixes \<and> name \<notin> set prepositions"
  by (auto simp: prefixes_def prepositions_def)

lemma abbreviate_first_dash:
  assumes "CHR ''-'' \<notin> set a" "b \<noteq> []" "length (a @ ''-'' @ b) > 2 \<or> last b \<noteq> CHR ''.''"
  shows "abbreviate j (a @ ''-'' @ b) = [hd (a @ ''-'' @ b)] @ ''.-'' @ [hd b] @ ''.''"
proof -
  let ?name = "a @ ''-'' @ b"
  have mem: "CHR ''-'' \<in> set ?name" by simp
  then have "?name \<notin> set prefixes" "?name \<notin> set prepositions"
    using dash_word_not_skipped by blast+
  moreover from assms(1) have k: "takeWhile (\<lambda>x. x \<noteq> CHR ''-'') ?name = a"
    by (simp add: takeWhile_append)
  moreover from assms(2,3) have "length ?name > 2 \<or> (length ?name \<noteq> 0 \<and> last ?name \<noteq> CHR ''.'')"
    by auto
  moreover from assms(2) have "?name ! Suc (length a) = hd b"
    by (simp add: nth_append hd_conv_nth)
  moreover have "?name ! 0 = hd ?name" by (simp add: hd_conv_nth)
  ultimately show ?thesis
    using assms(2) mem
    by (simp only: abbreviate_def find_py_takeWhile k Let_def) (simp add: nat_add_distrib)
qed


lemma init_umlaut:
  "init (example_fields umlaut_authors) =
     Inr \<lparr>pk = None, title = ''On numbers'', authors = umlaut_name,
          keywords_field = ''algebra'', year = Some 2020, month = Some 1,
          authors_list = [umlaut_name],
          authors_list_simple = Some [''h. mueller'', ''j. mueller''],
          authors_bibtex = Some umlaut_name,
          title_ends_with_punct = Some False\<rparr>"
  by code_simp

text \<open>
  C6, as the code has it. A word whose first dash is not its last character, and which is
  longer than two characters or does not end in a full stop, is abbreviated to its first
  character, a full stop, a dash, the character behind that first dash and a full stop;
  every word with a dash at an inner position is such a word. For a name of more than one
  word the simplified names are one entry for every segment that a split at the dashes
  gives of the first word: the segment, a space and the last word, in lower case and with
  a-umlaut, o-umlaut, u-umlaut and sharp s folded to "ae", "oe", "ue" and "ss".
  "Jean-Paul Sartre" gives the name "J.-P. Sartre" and the simplified names "j. sartre"
  and "p. sartre"; "Hans-Juergen Mueller", written with umlauts, gives "h. mueller" and
  "j. mueller".
\<close>

theorem hyphenated_names:
  "(CHR ''-'' \<notin> set a \<and> b \<noteq> [] \<and> (2 < length (a @ ''-'' @ b) \<or> last b \<noteq> CHR ''.'') \<longrightarrow>
      abbreviate j (a @ ''-'' @ b) = [hd (a @ ''-'' @ b)] @ ''.-'' @ [hd b] @ ''.'') \<and>
   (0 < i \<and> i + 1 < length name \<and> name ! i = CHR ''-'' \<longrightarrow>
      abbreviate j name =
        [name ! 0] @ ''.-'' @ [name ! Suc (length (takeWhile (\<lambda>c. c \<noteq> CHR ''-'') name))] @ ''.'') \<and>
   (1 < length (author_names author) \<longrightarrow>
      snd (process_author author) =
        map (\<lambda>segment. spec_simplify (segment @ '' '' @ last (author_names author)))
          (split_py CHR ''-'' (hd (author_names author)))) \<and>
   (\<exists>p. init (example_fields ''Jean-Paul Sartre'') = Inr p \<and>
        authors_list p = [''J.-P. Sartre''] \<and>
        authors_list_simple p = Some [''j. sartre'', ''p. sartre'']) \<and>
   (\<exists>p. init (example_fields umlaut_authors) = Inr p \<and>
        authors_list p = [umlaut_name] \<and>
        authors_list_simple p = Some [''h. mueller'', ''j. mueller''])"
proof (intro conjI impI)
  assume "CHR ''-'' \<notin> set a \<and> b \<noteq> [] \<and> (2 < length (a @ ''-'' @ b) \<or> last b \<noteq> CHR ''.'')"
  then show "abbreviate j (a @ ''-'' @ b) = [hd (a @ ''-'' @ b)] @ ''.-'' @ [hd b] @ ''.''"
    using abbreviate_first_dash by blast
next
  assume "0 < i \<and> i + 1 < length name \<and> name ! i = CHR ''-''"
  then show "abbreviate j name =
        [name ! 0] @ ''.-'' @ [name ! Suc (length (takeWhile (\<lambda>c. c \<noteq> CHR ''-'') name))] @ ''.''"
    using abbreviate_dash by blast
next
  assume l: "1 < length (author_names author)"
  have "author \<noteq> []"
  proof
    assume "author = []"
    then have "author_names author = []"
      by (simp add: author_names_def move_initials_def is_initials_def suffixes_def
          abbreviate_names_def)
    with l show False by simp
  qed
  moreover from l obtain x y zs where "author_names author = x # y # zs"
    by (cases "author_names author"; cases "tl (author_names author)") auto
  ultimately show "snd (process_author author) =
        map (\<lambda>segment. spec_simplify (segment @ '' '' @ last (author_names author)))
          (split_py CHR ''-'' (hd (author_names author)))"
    by (simp add: process_author_def simple_names_def Let_def simplify_name_spec)
next
  show "\<exists>p. init (example_fields ''Jean-Paul Sartre'') = Inr p \<and>
        authors_list p = [''J.-P. Sartre''] \<and>
        authors_list_simple p = Some [''j. sartre'', ''p. sartre'']"
    by (simp add: init_sartre)
next
  show "\<exists>p. init (example_fields umlaut_authors) = Inr p \<and>
        authors_list p = [umlaut_name] \<and>
        authors_list_simple p = Some [''h. mueller'', ''j. mueller'']"
    by (simp add: init_umlaut)
qed

lemma author_names_sartre: "author_names ''Jean-Paul Sartre'' = [''J.-P.'', ''Sartre'']"
  by code_simp

lemma spec_simplify_sartre:
  "spec_simplify ''J. Sartre'' = ''j. sartre''" "spec_simplify ''P. Sartre'' = ''p. sartre''"
  by code_simp+

lemma split_dash: "split_py CHR ''-'' ''J.-P.'' = [''J.'', ''P.'']"
  by code_simp

theorem hyphenated_names_witness:
  "abbreviate 0 (''Jean'' @ ''-'' @ ''Paul'') = ''J.-P.'' \<and>
   abbreviate 0 ''Jean-Paul'' = ''J.-P.'' \<and>
   snd (process_author ''Jean-Paul Sartre'') = [''j. sartre'', ''p. sartre'']"
  using hyphenated_names [of "''Jean''" "''Paul''" 0 4 "''Jean-Paul''" "''Jean-Paul Sartre''"]
  by (simp add: author_names_sartre split_dash spec_simplify_sartre)

text \<open>
  C6 as the specification words it, with the character behind the dash at the inner
  position, fails where that dash is not the first of the word: line 137 looks for the
  first dash only.
\<close>

lemma abbreviate_two_dashes:
  "abbreviate 0 ''Jean-Paul-Marie'' = ''J.-P.''" "abbreviate 0 ''-a-b'' = ''-.-a.''"
  by code_simp+

theorem hyphenated_counterexample:
  "\<not> (0 < (9::nat) \<and> 9 + 1 < length ''Jean-Paul-Marie'' \<and> ''Jean-Paul-Marie'' ! 9 = CHR ''-'' \<longrightarrow>
        abbreviate 0 ''Jean-Paul-Marie'' =
          [''Jean-Paul-Marie'' ! 0] @ ''.-'' @ [''Jean-Paul-Marie'' ! (9 + 1)] @ ''.'') \<and>
   \<not> (0 < (2::nat) \<and> 2 + 1 < length ''-a-b'' \<and> ''-a-b'' ! 2 = CHR ''-'' \<longrightarrow>
        abbreviate 0 ''-a-b'' = [''-a-b'' ! 0] @ ''.-'' @ [''-a-b'' ! (2 + 1)] @ ''.'')"
  by (simp add: abbreviate_two_dashes)


section \<open>The citation key\<close>

lemma scan_count:
  assumes "\<forall>p \<in> set ps. \<exists>l. lastname p = Inr l"
  shows "scan self s c ps =
     Inr (c + length (filter (\<lambda>p. lastname p = Inr s)
                       (takeWhile (\<lambda>p. \<not> pub_eq p self) ps)))"
  using assms
proof (induction ps arbitrary: c)
  case Nil
  then show ?case by simp
next
  case (Cons p ps)
  then obtain l where l: "lastname p = Inr l" by auto
  from Cons have ih: "\<And>c. scan self s c ps =
     Inr (c + length (filter (\<lambda>p. lastname p = Inr s)
                       (takeWhile (\<lambda>p. \<not> pub_eq p self) ps)))"
    by simp
  show ?case by (simp add: l ih)
qed

lemma init_smith: "init (smith_fields i m) = Inr (smith i m)"
proof -
  have w: "\<not> wrapped ''John Smith''" by (simp add: wrapped_def)
  have t: "tokens ''John Smith'' = [''John Smith'']" by code_simp
  have p: "process_author ''John Smith'' = (''J. Smith'', [''j. smith''])" by code_simp
  have d: "display_string [''J. Smith''] = Inr ''J. Smith''" by code_simp
  have k: "post_process_keywords ''algebra'' = ''algebra''" by code_simp
  have e: "ends_with_punct ''On numbers'' = False" by code_simp
  show ?thesis
    by (simp add: init_def smith_fields_def smith_def w t p d k e)
qed

lemma lastname_smith: "lastname (smith i m) = Inr ''Smith''"
proof -
  have "split_py CHR '' '' ''J. Smith'' = [''J.'', ''Smith'']" by code_simp
  then show ?thesis by (simp add: lastname_def smith_def)
qed

lemma pub_eq_smith: "pub_eq (smith i m) (smith j n) \<longleftrightarrow> i = j"
  by (simp add: pub_eq_def smith_def)

lemma str_year_2020: "str_year (Some 2020) = ''2020''"
  by code_simp

lemma year_smith: "year (smith i m) = Some 2020"
  by (simp add: smith_def)

lemma key_smith_a: "key (smith 1 1) [smith 1 1, smith 2 3, smith 3 3] = Inr ''Smith2020a''"
  by code_simp

lemma key_smith_b: "key (smith 2 3) [smith 1 1, smith 2 3, smith 3 3] = Inr ''Smith2020b''"
  by code_simp

lemma key_smith_c: "key (smith 3 3) [smith 1 1, smith 2 3, smith 3 3] = Inr ''Smith2020c''"
  by code_simp

lemma smith_ordered: "ordered_by_month_id [smith 1 1, smith 2 3, smith 3 3]"
  by (simp add: ordered_by_month_id_def month_id_le_def smith_def)

lemma alphabet: "map (\<lambda>n. char_of (97 + n)) [0..<26] = ''abcdefghijklmnopqrstuvwxyz''"
  by code_simp

lemma letter_nth:
  assumes "n < 26"
  shows "char_of (97 + n) = ''abcdefghijklmnopqrstuvwxyz'' ! n"
proof -
  from assms have "map (\<lambda>n. char_of (97 + n) :: char) [0..<26] ! n = char_of (97 + n)"
    by (simp del: upt_Suc)
  then show ?thesis by (simp only: alphabet)
qed


lemma key_count:
  assumes "lastname self = Inr s" "\<forall>p \<in> set publications. \<exists>l. lastname p = Inr l"
    "n = length (filter (\<lambda>p. lastname p = Inr s)
                  (takeWhile (\<lambda>p. \<not> pub_eq p self) publications))"
    "97 + n < 128"
  shows "key self publications = Inr (s @ str_year (year self) @ [char_of (97 + n)])"
proof -
  have a: "ord_py CHR ''a'' = 97" by (simp add: ord_py_def)
  from assms(4) have m: "(97 + n) mod 256 = 97 + n" by simp
  from assms(4) have c: "chr_py (97 + n) = Inr (char_of (97 + n))"
    by (simp add: chr_py_def)
  from assms(4) have "(of_char (char_of (97 + n) :: char) :: nat) < 128"
    by (simp only: of_char_of m)
  then have "append_chr (s @ str_year (year self)) (char_of (97 + n)) =
      Inr (s @ str_year (year self) @ [char_of (97 + n)])"
    by (simp add: append_chr_def)
  with c show ?thesis
    by (simp add: key_def assms(1) scan_count [OF assms(2)] a assms(3) [symmetric])
qed

text \<open>
  C1. Let every record have at least one author, let \<open>s\<close> be the last word of the first
  author of the record, and \<open>n\<close> the number of records with that last name among the
  records the query lists before the record itself (the scan stops at the record). With
  \<open>n\<close> below 26 the key is the last name, the year and the letter number \<open>n\<close> of the
  alphabet, counted from "a". This holds for every sequence of records, ordered or not.
  Three records of J. Smith from 2020, in the order of the query (January, March and March
  with the larger primary key), get the keys Smith2020a, Smith2020b and Smith2020c.
\<close>

theorem key_letter:
  "(lastname self = Inr s \<and> (\<forall>p \<in> set publications. \<exists>l. lastname p = Inr l) \<and>
    n = length (filter (\<lambda>p. lastname p = Inr s)
                 (takeWhile (\<lambda>p. \<not> pub_eq p self) publications)) \<and>
    n < 26 \<longrightarrow>
      key self publications =
        Inr (s @ str_year (year self) @ [''abcdefghijklmnopqrstuvwxyz'' ! n])) \<and>
   ordered_by_month_id [smith 1 1, smith 2 3, smith 3 3] \<and>
   key (smith 1 1) [smith 1 1, smith 2 3, smith 3 3] = Inr ''Smith2020a'' \<and>
   key (smith 2 3) [smith 1 1, smith 2 3, smith 3 3] = Inr ''Smith2020b'' \<and>
   key (smith 3 3) [smith 1 1, smith 2 3, smith 3 3] = Inr ''Smith2020c''"
proof (intro conjI impI)
  assume a: "lastname self = Inr s \<and> (\<forall>p \<in> set publications. \<exists>l. lastname p = Inr l) \<and>
    n = length (filter (\<lambda>p. lastname p = Inr s)
                 (takeWhile (\<lambda>p. \<not> pub_eq p self) publications)) \<and>
    n < 26"
  then have n: "n < 26" by blast
  then have "97 + n < 128" by simp
  with a have "key self publications = Inr (s @ str_year (year self) @ [char_of (97 + n)])"
    using key_count by blast
  with letter_nth [OF n] show "key self publications =
        Inr (s @ str_year (year self) @ [''abcdefghijklmnopqrstuvwxyz'' ! n])"
    by (simp only:)
qed (rule smith_ordered key_smith_a key_smith_b key_smith_c)+

theorem key_letter_witness:
  "lastname (smith 2 3) = Inr ''Smith'' \<and>
   key (smith 2 3) [smith 1 1, smith 2 3, smith 3 3] =
     Inr (''Smith'' @ str_year (year (smith 2 3)) @ [''abcdefghijklmnopqrstuvwxyz'' ! 1])"
proof -
  let ?ps = "[smith 1 1, smith 2 3, smith 3 3]"
  have h: "lastname (smith 2 3) = Inr ''Smith'' \<and>
    (\<forall>p \<in> set ?ps. \<exists>l. lastname p = Inr l) \<and>
    1 = length (filter (\<lambda>p. lastname p = Inr ''Smith'')
                 (takeWhile (\<lambda>p. \<not> pub_eq p (smith 2 3)) ?ps)) \<and>
    (1::nat) < 26"
    by (simp add: lastname_smith pub_eq_smith)
  from key_letter [of "smith 2 3" "''Smith''" ?ps 1]
  have "key (smith 2 3) ?ps =
     Inr (''Smith'' @ str_year (year (smith 2 3)) @ [''abcdefghijklmnopqrstuvwxyz'' ! 1])"
    using h by blast
  then show ?thesis by (simp only: lastname_smith simp_thms)
qed

section \<open>More than twenty-six records of one name and year\<close>

lemma lastname_crowd: "\<forall>p \<in> set (smith_crowd @ [smith 27 1]). \<exists>l. lastname p = Inr l"
  by (auto simp: smith_crowd_def lastname_smith)

lemma count_crowd:
  "length (filter (\<lambda>p. lastname p = Inr ''Smith'')
     (takeWhile (\<lambda>p. \<not> pub_eq p (smith 27 1)) (smith_crowd @ [smith 27 1]))) = 26"
proof -
  have "takeWhile (\<lambda>p. \<not> pub_eq p (smith 27 1)) (smith_crowd @ [smith 27 1]) = smith_crowd"
    by (simp add: smith_crowd_def takeWhile_append pub_eq_smith takeWhile_map)
  moreover have "filter (\<lambda>p. lastname p = Inr ''Smith'') smith_crowd = smith_crowd"
    by (simp add: smith_crowd_def lastname_smith filter_map o_def)
  ultimately show ?thesis by (simp add: smith_crowd_def)
qed

text \<open>
  C9, as the code has it. \<^verbatim>\<open>key\<close> has no bound on the counter and no fault of its own:
  with 26 to 30 records of the same last name before the record it returns a key, whose
  last character is the one with code \<open>97 + n\<close>, behind "z".
\<close>

theorem key_past_z:
  "lastname self = Inr s \<and> (\<forall>p \<in> set publications. \<exists>l. lastname p = Inr l) \<and>
    n = length (filter (\<lambda>p. lastname p = Inr s)
                 (takeWhile (\<lambda>p. \<not> pub_eq p self) publications)) \<and>
    26 \<le> n \<and> n \<le> 30 \<longrightarrow>
      (\<exists>c. key self publications = Inr (s @ str_year (year self) @ [c]) \<and>
           (of_char c :: nat) = 97 + n \<and> (of_char CHR ''z'' :: nat) < of_char c)"
proof
  assume a: "lastname self = Inr s \<and> (\<forall>p \<in> set publications. \<exists>l. lastname p = Inr l) \<and>
    n = length (filter (\<lambda>p. lastname p = Inr s)
                 (takeWhile (\<lambda>p. \<not> pub_eq p self) publications)) \<and>
    26 \<le> n \<and> n \<le> 30"
  then have n: "26 \<le> n" "n \<le> 30" by blast+
  then have lt: "97 + n < 128" by simp
  with a have k: "key self publications = Inr (s @ str_year (year self) @ [char_of (97 + n)])"
    using key_count by blast
  from lt have "(97 + n) mod 256 = 97 + n" by simp
  then have o: "(of_char (char_of (97 + n) :: char) :: nat) = 97 + n"
    by (simp only: of_char_of)
  with n have "(of_char CHR ''z'' :: nat) < of_char (char_of (97 + n) :: char)" by simp
  with k o show "\<exists>c. key self publications = Inr (s @ str_year (year self) @ [c]) \<and>
           (of_char c :: nat) = 97 + n \<and> (of_char CHR ''z'' :: nat) < of_char c"
    by blast
qed

lemma key_crowd: "key (smith 27 1) (smith_crowd @ [smith 27 1]) = Inr ''Smith2020{''"
proof -
  have c: "char_of (123 :: nat) = CHR ''{''" by code_simp
  have "key (smith 27 1) (smith_crowd @ [smith 27 1]) =
      Inr (''Smith'' @ str_year (year (smith 27 1)) @ [char_of (97 + (26::nat))])"
    by (rule key_count [OF lastname_smith lastname_crowd count_crowd [symmetric]]) simp
  then show ?thesis by (simp add: year_smith str_year_2020 c)
qed

theorem key_past_z_witness:
  "\<exists>c. key (smith 27 1) (smith_crowd @ [smith 27 1]) = Inr (''Smith2020'' @ [c]) \<and>
       (of_char c :: nat) = 123 \<and> (of_char CHR ''z'' :: nat) < of_char c"
  using key_past_z [of "smith 27 1" "''Smith''" "smith_crowd @ [smith 27 1]" 26]
  by (simp add: lastname_smith lastname_crowd count_crowd year_smith str_year_2020)

text \<open>
  C9 as the specification words it, with a fault in place of a key behind "z", fails:
  the twenty-seventh record of J. Smith from 2020 gets the key "Smith2020{".
\<close>

theorem key_exhausted_counterexample:
  "\<not> (26 \<le> length (filter (\<lambda>p. lastname p = Inr ''Smith'')
              (takeWhile (\<lambda>p. \<not> pub_eq p (smith 27 1)) (smith_crowd @ [smith 27 1]))) \<longrightarrow>
      (\<exists>e. key (smith 27 1) (smith_crowd @ [smith 27 1]) = Inl e))"
  by (simp add: count_crowd key_crowd)

section \<open>The order of the separator replacements\<close>

lemma init_semicolon_and:
  "init (example_fields ''Ann Lee; and Bob Ray'') =
     Inr \<lparr>pk = None, title = ''On numbers'', authors = ''A. Lee, , and B. Ray'',
          keywords_field = ''algebra'', year = Some 2020, month = Some 1,
          authors_list = [''A. Lee'', [], ''B. Ray''],
          authors_list_simple = Some [''a. lee'', ''b. ray''],
          authors_bibtex = Some ''A. Lee and  and B. Ray'',
          title_ends_with_punct = Some False\<rparr>"
  by code_simp

lemma separators_semicolon_and:
  "authors_separators ''Ann Lee; and Bob Ray'' = ''Ann Lee,, Bob Ray''"
  "keywords_separators ''Ann Lee; and Bob Ray'' = ''Ann Lee, Bob Ray''"
  "authors_separators ''Ann Lee;and Bob Ray'' = ''Ann Lee,and Bob Ray''"
  "keywords_separators ''Ann Lee;and Bob Ray'' = ''Ann Lee, Bob Ray''"
  by code_simp+

text \<open>
  C3. The lines for the authors replace the semicolon last, behind the three forms of
  "and"; the lines for the keywords, ten lines above, replace it first, as the
  specification says. So a semicolon in front of "and" is no comma yet when the forms
  with a comma are looked for: for "Ann Lee; and Bob Ray" the authors get two commas in
  a row and an empty author between the two names, where the keywords' order gives one
  comma; for "Ann Lee;and Bob Ray" the word "and" stays in the second name.
\<close>

theorem semicolon_replaced_last:
  "authors_separators ''Ann Lee; and Bob Ray'' = ''Ann Lee,, Bob Ray'' \<and>
   keywords_separators ''Ann Lee; and Bob Ray'' = ''Ann Lee, Bob Ray'' \<and>
   authors_separators ''Ann Lee;and Bob Ray'' = ''Ann Lee,and Bob Ray'' \<and>
   keywords_separators ''Ann Lee;and Bob Ray'' = ''Ann Lee, Bob Ray'' \<and>
   (\<exists>p. init (example_fields ''Ann Lee; and Bob Ray'') = Inr p \<and>
        authors_list p = [''A. Lee'', [], ''B. Ray''] \<and>
        authors p = ''A. Lee, , and B. Ray'')"
  by (simp add: separators_semicolon_and init_semicolon_and)

section \<open>Running the constructor on its own authors string\<close>

subsection \<open>Replacement where the pattern does not occur, and at its first occurrence\<close>

lemma replace_py_id:
  assumes "old \<noteq> []" "\<not> sublist old s"
  shows "replace_py old new s = s"
  using assms(2)
proof (induction s)
  case Nil
  with assms(1) show ?case by simp
next
  case (Cons c cs)
  then have "\<not> prefix old (c # cs)" "\<not> sublist old cs"
    by (auto simp: sublist_Cons_right)
  with Cons.IH assms(1) show ?case by simp
qed

lemma replace_py_hit:
  assumes "old \<noteq> []"
  shows "replace_py old new (old @ b) = new @ replace_py old new b"
proof -
  from assms obtain c cs where old: "old = c # cs" by (cases old) auto
  then show ?thesis by simp
qed

lemma prefix_within:
  assumes "prefix old (a @ old @ b)" "a \<noteq> []" "old \<noteq> []"
  shows "prefix old (a @ butlast old)"
proof -
  from assms(1) have "old = take (length old) (a @ old @ b)"
    by (metis append_eq_conv_conj prefixE)
  moreover from assms(2,3) have "length old \<le> length (a @ butlast old)"
    by (cases a) auto
  then have "take (length old) (a @ old @ b) = take (length old) (a @ butlast old)"
    by (cases "length old \<le> length a")
       (auto simp: take_butlast)
  ultimately have "old = take (length old) (a @ butlast old)" by simp
  then show ?thesis by (metis take_is_prefix)
qed

lemma replace_py_first:
  assumes "old \<noteq> []" "\<not> sublist old (a @ butlast old)"
  shows "replace_py old new (a @ old @ b) = a @ new @ replace_py old new b"
  using assms(2)
proof (induction a)
  case Nil
  from assms(1) show ?case by (simp add: replace_py_hit)
next
  case (Cons x a)
  from Cons.prems have ns: "\<not> sublist old (a @ butlast old)"
    by (auto simp: sublist_Cons_right)
  have "\<not> prefix old ((x # a) @ old @ b)"
  proof
    assume "prefix old ((x # a) @ old @ b)"
    then have "prefix old ((x # a) @ butlast old)"
      using assms(1) by (intro prefix_within) auto
    with Cons.prems show False by auto
  qed
  with Cons.IH [OF ns] assms(1) show ?case by simp
qed

lemma not_sublist_char: "c \<in> set old \<Longrightarrow> c \<notin> set s \<Longrightarrow> \<not> sublist old s"
  using set_mono_sublist by fastforce

subsection \<open>Splitting and stripping\<close>

lemma split_py_none: "sep \<notin> set a \<Longrightarrow> split_py sep a = [a]"
  by (induction a) auto

lemma split_py_append:
  "sep \<notin> set a \<Longrightarrow> split_py sep (a @ sep # b) = a # split_py sep b"
  by (induction a) auto

lemma split_py_words: "split_py sep (a @ sep # b) = split_py sep a @ split_py sep b"
proof (induction a)
  case Nil
  then show ?case by simp
next
  case (Cons c a)
  obtain w ws where "split_py sep a = w # ws"
    using split_py_not_Nil [of sep a] by (cases "split_py sep a") auto
  with Cons show ?case by simp
qed

lemma split_py_no_sep: "w \<in> set (split_py sep s) \<Longrightarrow> sep \<notin> set w"
proof (induction s arbitrary: w)
  case Nil
  then show ?case by simp
next
  case (Cons c s)
  obtain v vs where v: "split_py sep s = v # vs"
    using split_py_not_Nil [of sep s] by (cases "split_py sep s") auto
  with Cons.IH have "sep \<notin> set v" "\<And>u. u \<in> set vs \<Longrightarrow> sep \<notin> set u" by auto
  with Cons.prems v show ?case by (auto split: if_splits)
qed

lemma strip_py_fix:
  assumes "\<not> isspace (hd t)" "\<not> isspace (last t)" "t \<noteq> []"
  shows "strip_py t = t"
proof -
  from assms(1,3) have "dropWhile isspace t = t" by (cases t) auto
  moreover from assms(2,3) have "dropWhile isspace (rev t) = rev t"
    by (cases "rev t") (auto simp: last_rev [symmetric] hd_rev)
  ultimately show ?thesis by (simp add: strip_py_def)
qed

lemma strip_py_idem: "strip_py (strip_py x) = strip_py x"
proof (cases "strip_py x = []")
  case True
  have "strip_py [] = []" by (simp add: strip_py_def)
  with True show ?thesis by (simp only:)
next
  case False
  from strip_py_hd [OF False] strip_py_last [OF False] False show ?thesis
    by (rule strip_py_fix)
qed

lemma strip_py_space: "strip_py (CHR '' '' # s) = strip_py s"
  by (simp add: strip_py_def isspace_space)


subsection \<open>Names without the word "and"\<close>

lemma first_word_and:
  assumes "prefix ''and '' (t @ '' '')"
  shows "hd (split_py CHR '' '' t) = ''and''"
proof -
  from assms consider "prefix ''and '' t" | us where "''and '' = t @ us" "prefix us '' ''"
    by (auto simp: prefix_append)
  then show ?thesis
  proof cases
    case 1
    then obtain r where "t = ''and '' @ r" by (auto elim: prefixE)
    then show ?thesis by simp
  next
    case 2
    from 2(2) have "us = [] \<or> us = '' ''" by (cases us) auto
    then show ?thesis
    proof
      assume "us = []"
      with 2(1) have "t = ''and ''" by simp
      then show ?thesis by simp
    next
      assume "us = '' ''"
      with 2(1) have "''and'' @ '' '' = t @ '' ''" by simp
      then have "t = ''and''" by (simp only: append_same_eq)
      then show ?thesis by simp
    qed
  qed
qed

lemma later_word_and:
  "sublist '' and '' (t @ '' '') \<Longrightarrow> ''and'' \<in> set (tl (split_py CHR '' '' t))"
proof (induction t)
  case Nil
  then show ?case by (simp add: sublist_code)
next
  case (Cons c t)
  obtain w ws where w: "split_py CHR '' '' t = w # ws"
    using split_py_not_Nil [of "CHR '' ''" t] by (cases "split_py CHR '' '' t") auto
  from Cons.prems consider "prefix '' and '' (c # t @ '' '')" | "sublist '' and '' (t @ '' '')"
    by (auto simp: sublist_Cons_right)
  then show ?case
  proof cases
    case 1
    then have c: "c = CHR '' ''" and "prefix ''and '' (t @ '' '')" by auto
    from first_word_and [OF this(2)] w have "w = ''and''" by simp
    with c w show ?thesis by simp
  next
    case 2
    from Cons.IH [OF this] w have "''and'' \<in> set ws" by simp
    with w show ?thesis by auto
  qed
qed

lemma no_and_word:
  assumes "''and'' \<notin> set (split_py CHR '' '' t)"
  shows "\<not> prefix ''and '' (t @ '' '')" "\<not> sublist '' and '' (t @ '' '')"
proof -
  obtain w ws where w: "split_py CHR '' '' t = w # ws"
    using split_py_not_Nil [of "CHR '' ''" t] by (cases "split_py CHR '' '' t") auto
  show "\<not> prefix ''and '' (t @ '' '')"
  proof
    assume "prefix ''and '' (t @ '' '')"
    from first_word_and [OF this] w assms show False by simp
  qed
  show "\<not> sublist '' and '' (t @ '' '')"
  proof
    assume "sublist '' and '' (t @ '' '')"
    from later_word_and [OF this] w assms show False by simp
  qed
qed

text \<open>What the passes need of a name: no comma, no semicolon, and the word "and" neither
  at its start nor further in.\<close>

lemma and_free_inside:
  assumes "\<not> sublist '' and '' (t @ '' '')"
  shows "\<not> sublist '' and '' t"
proof
  assume "sublist '' and '' t"
  then obtain u v where "t = u @ '' and '' @ v" by (auto simp: sublist_def)
  then have "t @ '' '' = u @ '' and '' @ (v @ '' '')" by simp
  then have "sublist '' and '' (t @ '' '')" by (metis sublist_appendI)
  with assms show False by simp
qed

lemma prefix_cut:
  assumes "c \<notin> set old" "prefix old (u @ c # r)"
  shows "prefix old u"
proof -
  from assms(2) consider "prefix old u" | us where "old = u @ us" "prefix us (c # r)"
    by (auto simp: prefix_append)
  then show ?thesis
  proof cases
    case 1
    then show ?thesis .
  next
    case 2
    show ?thesis
    proof (cases us)
      case Nil
      with 2(1) show ?thesis by simp
    next
      case (Cons x xs)
      with 2(2) have "x = c" by simp
      with Cons 2(1) assms(1) show ?thesis by simp
    qed
  qed
qed

lemma sublist_skip: "c \<notin> set a \<Longrightarrow> sublist (c # r) (a @ b) \<longleftrightarrow> sublist (c # r) b"
  by (induction a) (auto simp: sublist_Cons_right)

lemma sublist_across:
  assumes "c \<notin> set old" "old \<noteq> []"
  shows "sublist old (a @ c # b) \<longleftrightarrow> sublist old a \<or> sublist old b"
proof (induction a)
  case Nil
  from assms have "\<not> prefix old (c # b)"
    by (cases old) auto
  then show ?case using assms(2) by (simp add: sublist_Cons_right)
next
  case (Cons x a)
  have "prefix old (x # a @ c # b) \<longleftrightarrow> prefix old (x # a)"
  proof
    assume "prefix old (x # a @ c # b)"
    then have "prefix old ((x # a) @ c # b)" by simp
    with assms(1) show "prefix old (x # a)" by (rule prefix_cut)
  next
    assume "prefix old (x # a)"
    then show "prefix old (x # a @ c # b)"
      by (metis append_Cons prefix_order.trans prefixI)
  qed
  with Cons show ?case
    by (auto simp: sublist_Cons_right)
qed

lemma and_at_end:
  "sublist '' and '' (a @ '' and'') \<Longrightarrow> sublist '' and '' (a @ '' '')"
proof (induction a)
  case Nil
  then show ?case by (simp add: sublist_code)
next
  case (Cons x a)
  from Cons.prems consider "prefix '' and '' (x # a @ '' and'')" | "sublist '' and '' (a @ '' and'')"
    by (auto simp: sublist_Cons_right)
  then show ?case
  proof cases
    case 1
    then have x: "x = CHR '' ''" and p: "prefix ''and '' (a @ '' and'')" by auto
    from p consider "prefix ''and '' a" | us where "''and '' = a @ us" "prefix us '' and''"
      by (auto simp: prefix_append)
    then have "prefix ''and '' (a @ '' '')"
    proof cases
      case 1
      then show ?thesis by (metis prefix_order.trans prefixI)
    next
      case 2
      from 2(2) obtain vs where vs: "'' and'' = us @ vs" by (auto elim: prefixE)
      show ?thesis
      proof (cases us)
        case Nil
        with 2(1) show ?thesis by simp
      next
        case (Cons u us')
        with vs have u: "u = CHR '' ''" by simp
        with Cons 2(1) have "a @ CHR '' '' # us' = ''and ''" by simp
        then have "a = ''and'' \<and> us' = []"
          by (auto simp: append_eq_Cons_conv Cons_eq_append_conv)
        then show ?thesis by simp
      qed
    qed
    with x show ?thesis by (simp add: sublist_Cons_right)
  next
    case 2
    from Cons.IH [OF this] show ?thesis by (simp add: sublist_Cons_right)
  qed
qed


subsection \<open>Names joined by a comma and a space\<close>

lemma join_py_Cons: "join_py sep (t # us) = t @ concat (map (\<lambda>u. sep @ u) us)"
  by (induction us arbitrary: t) auto

lemma and_free_prefix:
  assumes "\<not> prefix ''and '' (u @ '' '')"
  shows "\<not> prefix ''and '' u"
  using assms by (metis prefix_order.trans prefixI)

lemma and_free_cut:
  assumes "\<not> prefix ''and '' (u @ '' '')"
  shows "\<not> prefix ''and '' (u @ CHR '','' # r)"
proof
  assume p: "prefix ''and '' (u @ CHR '','' # r)"
  have "CHR '','' \<notin> set ''and ''" by simp
  then have "prefix ''and '' u" using p by (rule prefix_cut)
  with and_free_prefix [OF assms] show False by simp
qed

lemma tail_comma_and:
  assumes "\<forall>u \<in> set us. CHR '','' \<notin> set u \<and> \<not> prefix ''and '' (u @ '' '')"
  shows "\<not> sublist '', and '' (concat (map (\<lambda>u. '', '' @ u) us) @ '', and'')"
  using assms
proof (induction us)
  case Nil
  then show ?case by (simp add: sublist_code)
next
  case (Cons u us)
  let ?r = "concat (map (\<lambda>u. '', '' @ u) us) @ '', and''"
  from Cons have ih: "\<not> sublist '', and '' ?r" by simp
  from Cons.prems have u: "CHR '','' \<notin> set u" "\<not> prefix ''and '' (u @ '' '')" by simp_all
  obtain r' where r: "?r = CHR '','' # r'" by (cases us) auto
  have "\<not> prefix ''and '' (u @ CHR '','' # r')" by (rule and_free_cut [OF u(2)])
  then have "\<not> prefix ''and '' (u @ ?r)" by (simp only: r simp_thms)
  moreover from ih u(1) have "\<not> sublist '', and '' (u @ ?r)" by (simp add: sublist_skip)
  ultimately show ?case by (simp add: sublist_Cons_right)
qed

lemma tail_commaand:
  assumes "\<forall>u \<in> set us. CHR '','' \<notin> set u"
  shows "\<not> sublist '',and '' (concat (map (\<lambda>u. '', '' @ u) us))"
  using assms
proof (induction us)
  case Nil
  then show ?case by simp
next
  case (Cons u us)
  then have "\<not> sublist '',and '' (u @ concat (map (\<lambda>u. '', '' @ u) us))"
    by (simp add: sublist_skip)
  then show ?case by (simp add: sublist_Cons_right)
qed

lemma space_name_and:
  assumes "\<not> prefix ''and '' (u @ '' '')" "\<not> sublist '' and '' (u @ '' '')"
  shows "\<not> sublist '' and '' (CHR '' '' # u)"
  using and_free_prefix [OF assms(1)] and_free_inside [OF assms(2)]
  by (simp add: sublist_Cons_right)

lemma tail_and:
  assumes "\<forall>u \<in> set us. \<not> prefix ''and '' (u @ '' '') \<and> \<not> sublist '' and '' (u @ '' '')"
  shows "\<not> sublist '' and '' (concat (map (\<lambda>u. '', '' @ u) us))"
  using assms
proof (induction us)
  case Nil
  then show ?case by simp
next
  case (Cons u us)
  let ?r = "concat (map (\<lambda>u. '', '' @ u) us)"
  from Cons have ih: "\<not> sublist '' and '' ?r" by simp
  from Cons.prems have "\<not> sublist '' and '' (CHR '' '' # u)"
    by (intro space_name_and) simp_all
  moreover have "sublist '' and '' ((CHR '' '' # u) @ ?r) \<longleftrightarrow>
      sublist '' and '' (CHR '' '' # u) \<or> sublist '' and '' ?r"
  proof (cases us)
    case Nil
    then show ?thesis by simp
  next
    case (Cons v vs)
    then obtain r' where r: "?r = CHR '','' # r'" by auto
    from ih r have n: "\<not> sublist '' and '' r'" by (simp add: sublist_Cons_right)
    have "sublist '' and '' ((CHR '' '' # u) @ CHR '','' # r') \<longleftrightarrow>
        sublist '' and '' (CHR '' '' # u) \<or> sublist '' and '' r'"
      by (rule sublist_across) simp_all
    with n ih show ?thesis by (simp only: r)
  qed
  ultimately have "\<not> sublist '' and '' (CHR '' '' # u @ ?r)" using ih by simp
  then show ?case by (simp add: sublist_Cons_right)
qed

lemma tail_split:
  assumes "CHR '','' \<notin> set t" "\<forall>u \<in> set us. CHR '','' \<notin> set u"
  shows "split_py CHR '','' (t @ concat (map (\<lambda>u. '', '' @ u) us)) = t # map (\<lambda>u. CHR '' '' # u) us"
  using assms
proof (induction us arbitrary: t)
  case Nil
  then show ?case by (simp add: split_py_none)
next
  case (Cons u us)
  let ?r = "concat (map (\<lambda>u. '', '' @ u) us)"
  from Cons.prems have c: "CHR '','' \<notin> set (CHR '' '' # u)" and a: "\<forall>u \<in> set us. CHR '','' \<notin> set u"
    by simp_all
  have "split_py CHR '','' (t @ CHR '','' # ((CHR '' '' # u) @ ?r)) =
      t # split_py CHR '','' ((CHR '' '' # u) @ ?r)"
    using Cons.prems(1) by (rule split_py_append)
  also have "split_py CHR '','' ((CHR '' '' # u) @ ?r) = (CHR '' '' # u) # map (\<lambda>u. CHR '' '' # u) us"
    using c a by (rule Cons.IH)
  finally show ?case by (simp del: split_py.simps)
qed

subsection \<open>What the tokenizer guarantees of a token\<close>

lemma set_strip_py: "set (strip_py x) \<subseteq> set x"
proof -
  have "set (strip_py x) = set (dropWhile isspace (rev (dropWhile isspace x)))"
    by (simp add: strip_py_def)
  also have "\<dots> \<subseteq> set (rev (dropWhile isspace x))" by (auto dest: set_dropWhileD)
  also have "\<dots> \<subseteq> set x" by (auto dest: set_dropWhileD)
  finally show ?thesis .
qed

lemma split_py_set: "w \<in> set (split_py sep s) \<Longrightarrow> set w \<subseteq> set s"
proof (induction s arbitrary: w)
  case Nil
  then show ?case by simp
next
  case (Cons c s)
  obtain v vs where v: "split_py sep s = v # vs"
    using split_py_not_Nil [of sep s] by (cases "split_py sep s") auto
  with Cons.IH have "set v \<subseteq> set s" "\<And>u. u \<in> set vs \<Longrightarrow> set u \<subseteq> set s" by auto
  with Cons.prems v show ?case by (auto split: if_splits)
qed

lemma replace_py_char_gone: "c \<notin> set new \<Longrightarrow> c \<notin> set (replace_py [c] new s)"
  by (induction s) auto

lemma semicolon_gone: "CHR '';'' \<notin> set (authors_separators s)"
  unfolding authors_separators_def by (rule replace_py_char_gone) simp


lemma token_facts:
  assumes "t \<in> set (tokens s)"
  shows "CHR '','' \<notin> set t" "CHR '';'' \<notin> set t" "strip_py t = t"
proof -
  from assms obtain x where x: "x \<in> set (split_py CHR '','' (authors_separators s))"
    and t: "t = strip_py x"
    by (auto simp: tokens_def)
  from x have "CHR '','' \<notin> set x" by (rule split_py_no_sep)
  with set_strip_py [of x] show "CHR '','' \<notin> set t" unfolding t by blast
  from split_py_set [OF x] semicolon_gone [of s] have "CHR '';'' \<notin> set x" by blast
  with set_strip_py [of x] show "CHR '';'' \<notin> set t" unfolding t by blast
  show "strip_py t = t" unfolding t by (rule strip_py_idem)
qed

subsection \<open>The four replacements on the rewritten authors string\<close>

lemma joined_clean:
  assumes "\<forall>u \<in> set (t # us). CHR '','' \<notin> set u \<and> CHR '';'' \<notin> set u \<and>
     \<not> prefix ''and '' (u @ '' '') \<and> \<not> sublist '' and '' (u @ '' '')"
  shows "\<not> sublist '',and '' (join_py '', '' (t # us))"
    "\<not> sublist '' and '' (join_py '', '' (t # us))"
    "\<not> sublist '';'' (join_py '', '' (t # us))"
proof -
  let ?r = "concat (map (\<lambda>u. '', '' @ u) us)"
  have j: "join_py '', '' (t # us) = t @ ?r" by (rule join_py_Cons)
  from assms have t: "CHR '','' \<notin> set t" "\<not> sublist '' and '' (t @ '' '')" by simp_all
  from assms have c: "\<forall>u \<in> set us. CHR '','' \<notin> set u" by simp
  from assms have a: "\<forall>u \<in> set us. \<not> prefix ''and '' (u @ '' '') \<and> \<not> sublist '' and '' (u @ '' '')"
    by simp
  from tail_commaand [OF c] t(1) show "\<not> sublist '',and '' (join_py '', '' (t # us))"
    by (simp only: j sublist_skip simp_thms)
  show "\<not> sublist '' and '' (join_py '', '' (t # us))"
  proof (cases us)
    case Nil
    with and_free_inside [OF t(2)] show ?thesis by simp
  next
    case (Cons v vs)
    then obtain r' where r: "?r = CHR '','' # r'" by auto
    from tail_and [OF a] r have "\<not> sublist '' and '' r'" by (simp add: sublist_Cons_right)
    moreover have "sublist '' and '' (t @ CHR '','' # r') \<longleftrightarrow>
        sublist '' and '' t \<or> sublist '' and '' r'"
      by (rule sublist_across) simp_all
    ultimately show ?thesis using and_free_inside [OF t(2)] by (simp only: j r simp_thms)
  qed
  from assms have "CHR '';'' \<notin> set (join_py '', '' (t # us))"
    by (auto simp: j)
  then show "\<not> sublist '';'' (join_py '', '' (t # us))"
    by (intro not_sublist_char [of "CHR '';''"]) simp_all
qed

lemma separators_display:
  assumes good: "\<forall>u \<in> set ts. CHR '','' \<notin> set u \<and> CHR '';'' \<notin> set u \<and>
     \<not> prefix ''and '' (u @ '' '') \<and> \<not> sublist '' and '' (u @ '' '')"
    and d: "display_string ts = Inr d"
  shows "authors_separators d = join_py '', '' ts"
proof -
  let ?j = "join_py '', '' ts"
  from d obtain t us where ts: "ts = t # us" by (cases ts) (auto simp: display_string_def)
  note c = joined_clean [OF good [unfolded ts], folded ts]
  have r2: "replace_py '',and '' '', '' ?j = ?j" by (rule replace_py_id [OF _ c(1)]) simp
  have r3: "replace_py '' and '' '', '' ?j = ?j" by (rule replace_py_id [OF _ c(2)]) simp
  have r4: "replace_py '';'' '','' ?j = ?j" by (rule replace_py_id [OF _ c(3)]) simp
  from good ts have t: "CHR '','' \<notin> set t" "\<not> sublist '' and '' (t @ '' '')" by simp_all
  consider "us = []" | u where "us = [u]" | u v vs where "us = u # v # vs"
    by (cases us; cases "tl us") auto
  then show ?thesis
  proof cases
    case 1
    with d ts have dt: "d = t" "?j = t" by (simp_all add: display_string_def)
    from t(1) have "\<not> sublist '', and '' t" by (intro not_sublist_char [of "CHR '',''"]) simp_all
    then have "replace_py '', and '' '', '' t = t" by (intro replace_py_id) simp_all
    with r2 r3 r4 show ?thesis by (simp only: authors_separators_def dt)
  next
    case 2
    with d ts have dt: "d = t @ '' and '' @ u" and j: "?j = t @ '', '' @ u"
      by (simp_all add: display_string_def)
    from good ts 2 have u: "CHR '','' \<notin> set u" "\<not> sublist '' and '' (u @ '' '')" by simp_all
    from t(1) u(1) have nc: "CHR '','' \<notin> set d" by (simp add: dt)
    then have "\<not> sublist '', and '' d" by (intro not_sublist_char [of "CHR '',''"]) simp_all
    then have r1: "replace_py '', and '' '', '' d = d" by (intro replace_py_id) simp_all
    from nc have "\<not> sublist '',and '' d" by (intro not_sublist_char [of "CHR '',''"]) simp_all
    then have r2': "replace_py '',and '' '', '' d = d" by (intro replace_py_id) simp_all
    from t(2) and_at_end [of t] have "\<not> sublist '' and '' (t @ butlast '' and '')" by auto
    then have "replace_py '' and '' '', '' (t @ '' and '' @ u) =
        t @ '', '' @ replace_py '' and '' '', '' u"
      by (intro replace_py_first) simp_all
    moreover have "replace_py '' and '' '', '' u = u"
      using and_free_inside [OF u(2)] by (intro replace_py_id) simp_all
    ultimately have r3': "replace_py '' and '' '', '' d = ?j" by (simp only: dt j)
    show ?thesis by (simp only: authors_separators_def r1 r2' r3' r4)
  next
    case 3
    let ?m = "butlast us" and ?l = "last us"
    let ?a = "t @ concat (map (\<lambda>u. '', '' @ u) ?m)"
    from 3 have ne: "us \<noteq> []" by simp
    then have us: "us = ?m @ [?l]" by simp
    from 3 d ts have "d = join_py '', '' (butlast ts) @ '', and '' @ last ts"
      by (simp add: display_string_def)
    with ne ts have dt: "d = ?a @ '', and '' @ ?l"
      by (simp add: join_py_Cons)
    have "?j = t @ concat (map (\<lambda>u. '', '' @ u) (?m @ [?l]))"
      using us by (simp only: ts join_py_Cons flip: us)
    then have j: "?j = ?a @ '', '' @ ?l" by simp
    from good ts have gm: "\<forall>u \<in> set ?m. CHR '','' \<notin> set u \<and> \<not> prefix ''and '' (u @ '' '')"
      by (auto dest: in_set_butlastD)
    from good ts ne have l: "CHR '','' \<notin> set ?l" by simp
    from tail_comma_and [OF gm] t(1)
    have "\<not> sublist '', and '' (t @ concat (map (\<lambda>u. '', '' @ u) ?m) @ '', and'')"
      by (simp only: sublist_skip simp_thms)
    then have "\<not> sublist '', and '' (?a @ butlast '', and '')" by simp
    then have "replace_py '', and '' '', '' (?a @ '', and '' @ ?l) =
        ?a @ '', '' @ replace_py '', and '' '', '' ?l"
      by (intro replace_py_first) simp_all
    moreover have "replace_py '', and '' '', '' ?l = ?l"
    proof -
      from l have "\<not> sublist '', and '' ?l" by (intro not_sublist_char [of "CHR '',''"]) simp_all
      then show ?thesis by (intro replace_py_id) simp_all
    qed
    ultimately have r1: "replace_py '', and '' '', '' d = ?j" by (simp only: dt j)
    show ?thesis by (simp only: authors_separators_def r1 r2 r3 r4)
  qed
qed


lemma tokens_display:
  assumes good: "\<forall>u \<in> set ts. CHR '','' \<notin> set u \<and> CHR '';'' \<notin> set u \<and>
     \<not> prefix ''and '' (u @ '' '') \<and> \<not> sublist '' and '' (u @ '' '')"
    and strip: "\<forall>u \<in> set ts. strip_py u = u"
    and d: "display_string ts = Inr d"
  shows "tokens d = ts"
proof -
  from d obtain t us where ts: "ts = t # us" by (cases ts) (auto simp: display_string_def)
  from good ts have c: "CHR '','' \<notin> set t" "\<forall>u \<in> set us. CHR '','' \<notin> set u" by simp_all
  have "tokens d = map strip_py (split_py CHR '','' (join_py '', '' (t # us)))"
    by (simp only: tokens_def separators_display [OF good d] ts)
  also have "\<dots> = map strip_py (t # map (\<lambda>u. CHR '' '' # u) us)"
    by (simp only: join_py_Cons tail_split [OF c])
  also have "\<dots> = strip_py t # map strip_py us"
    by (simp add: strip_py_space o_def)
  also from strip ts have "\<dots> = t # us" by (simp add: map_idI)
  finally show ?thesis by (simp only: ts)
qed

lemma set_join_py: "set (join_py sep xs) \<subseteq> set sep \<union> (\<Union>x \<in> set xs. set x)"
  by (induction sep xs rule: join_py.induct) auto

lemma display_string_set:
  assumes "display_string ts = Inr d" "c \<in> set d"
  shows "c \<in> set '', and '' \<or> (\<exists>t \<in> set ts. c \<in> set t)"
proof -
  consider "length ts > 2" | "length ts = 2" | "length ts < 2" by linarith
  then show ?thesis
  proof cases
    case 1
    with assms(1) have "d = join_py '', and '' [join_py '', '' (butlast ts), last ts]"
      by (simp add: display_string_def)
    with assms(2) have "c \<in> set '', and '' \<or> c \<in> set (join_py '', '' (butlast ts)) \<or> c \<in> set (last ts)"
      by auto
    moreover from 1 have "last ts \<in> set ts" by (intro last_in_set) auto
    moreover have "c \<in> set (join_py '', '' (butlast ts)) \<Longrightarrow>
        c \<in> set '', and '' \<or> (\<exists>t \<in> set ts. c \<in> set t)"
      using set_join_py [of "'', ''" "butlast ts"] by (auto dest: in_set_butlastD)
    ultimately show ?thesis by blast
  next
    case 2
    with assms(1) have "d = join_py '' and '' ts" by (simp add: display_string_def)
    with assms(2) set_join_py [of "'' and ''" ts] show ?thesis by auto
  next
    case 3
    with assms show ?thesis
      by (cases ts) (auto simp: display_string_def)
  qed
qed

lemma display_string_not_wrapped:
  assumes "display_string ts = Inr d" "\<forall>t \<in> set ts. CHR ''{'' \<notin> set t"
  shows "\<not> wrapped d"
proof
  assume "wrapped d"
  then have "d \<noteq> []" "d ! 0 = CHR ''{''" by (simp_all add: wrapped_def)
  then have "CHR ''{'' \<in> set d" by (metis length_greater_0_conv nth_mem)
  from display_string_set [OF assms(1) this] assms(2) show False by auto
qed

lemma init_plain_lists:
  assumes "\<not> wrapped (authors f)"
  shows "\<exists>p. init f = Inr p \<and>
     display_string (map (fst \<circ> process_author) (tokens (authors f))) = Inr (authors p) \<and>
     authors_list p = map (fst \<circ> process_author) (tokens (authors f))"
  using init_plain [OF assms] by auto

subsection \<open>Names that are abbreviated already\<close>

lemma join_py_char: "ws \<noteq> [] \<Longrightarrow> join_py sep ((c # w) # tl ws) = c # join_py sep (w # tl ws)"
  by (cases "tl ws") auto

lemma join_split: "join_py [sep] (split_py sep s) = s"
proof (induction s)
  case Nil
  then show ?case by simp
next
  case (Cons c s)
  obtain w ws where w: "split_py sep s = w # ws"
    using split_py_not_Nil [of sep s] by (cases "split_py sep s") auto
  show ?case
  proof (cases "c = sep")
    case True
    with Cons w show ?thesis by simp
  next
    case False
    have "join_py [sep] ((c # w) # ws) = c # join_py [sep] (w # ws)"
      by (cases ws) auto
    with False Cons w show ?thesis by simp
  qed
qed

lemma split_join:
  "ws \<noteq> [] \<Longrightarrow> \<forall>w \<in> set ws. sep \<notin> set w \<Longrightarrow> split_py sep (join_py [sep] ws) = ws"
proof (induction "[sep]" ws rule: join_py.induct)
  case 1
  then show ?case by simp
next
  case (2 x)
  then show ?case by (simp add: split_py_none)
next
  case (3 x y ys)
  then have "split_py sep (join_py [sep] (y # ys)) = y # ys" by simp
  moreover from 3 have "sep \<notin> set x" by simp
  ultimately show ?case by (simp add: split_py_append del: split_py.simps)
qed

lemma initialD: "initial w \<Longrightarrow> \<exists>c. w = [c, CHR ''.'']"
  unfolding initial_def
  by (cases w; cases "tl w") auto

lemma initial_facts:
  assumes "initial w"
  shows "abbreviate j w = w" "w \<notin> set suffixes" "\<not> is_initials w" "w \<noteq> ''and''" "w \<noteq> []"
    "last w = CHR ''.''"
proof -
  from initialD [OF assms] obtain c where w: "w = [c, CHR ''.'']" by blast
  show "abbreviate j w = w" unfolding w by (rule abbreviate_initial)
  show "w \<notin> set suffixes" unfolding w by (simp add: suffixes_def)
  show "\<not> is_initials w" unfolding w by (simp add: is_initials_def ascii_uppercase_def)
  show "w \<noteq> ''and''" "w \<noteq> []" "last w = CHR ''.''" unfolding w by simp_all
qed

lemma given_words_all:
  "(\<forall>(j, w) \<in> set (given_words t). P j w) \<longleftrightarrow>
   (\<forall>j < length (split_py CHR '' '' t) - (1 + num_suffixes (split_py CHR '' '' t)).
      P j (split_py CHR '' '' t ! j))"
  by (auto simp: given_words_def Let_def in_set_enumerate_eq)

lemma find_py_title: "find_py CHR ''-'' ''Dr.'' = - 1"
  by code_simp

lemma title_facts:
  "abbreviate 0 ''Dr.'' = ''Dr.''" "''Dr.'' \<notin> set suffixes" "\<not> is_initials ''Dr.''"
  "\<not> isspace (last ''Dr.'')"
  by code_simp+

lemma prepositions_all:
  "list_all (\<lambda>w. w \<notin> set suffixes \<and> \<not> is_initials w \<and> w \<noteq> ''and'' \<and> w \<noteq> [] \<and>
      \<not> isspace (last w)) prepositions"
  by code_simp

lemma preposition_facts:
  assumes "w \<in> set prepositions"
  shows "w \<notin> set suffixes \<and> \<not> is_initials w \<and> w \<noteq> ''and'' \<and> w \<noteq> [] \<and> \<not> isspace (last w)"
  using prepositions_all assms unfolding list_all_iff by (rule bspec)

lemma settled_cases:
  assumes "settled j w"
  obtains "initial w" | "j = 0" "w = ''Dr.''" | "0 < j" "w \<in> set prepositions"
  using assms by (auto simp: settled_def prefixes_def)

lemma settled_facts:
  assumes "settled j w"
  shows "abbreviate j w = w" "w \<notin> set suffixes" "\<not> is_initials w" "w \<noteq> ''and''" "w \<noteq> []"
    "\<not> isspace (last w)"
proof -
  from assms have "abbreviate j w = w \<and> w \<notin> set suffixes \<and> \<not> is_initials w \<and> w \<noteq> ''and'' \<and>
    w \<noteq> [] \<and> \<not> isspace (last w)"
  proof (cases rule: settled_cases)
    case 1
    from initial_facts [OF 1] show ?thesis by (simp add: isspace_def)
  next
    case 2
    with title_facts show ?thesis by simp
  next
    case 3
    then have "abbreviate j w = w" by (simp add: abbreviate_def)
    with preposition_facts [OF 3(2)] show ?thesis by simp
  qed
  then show "abbreviate j w = w" "w \<notin> set suffixes" "\<not> is_initials w" "w \<noteq> ''and''" "w \<noteq> []"
    "\<not> isspace (last w)" by simp_all
qed

lemma settled_shift:
  assumes "settled j w" "0 < k"
  shows "settled k (abbreviate k w)" "abbreviate k w = w \<or> abbreviate k w = ''D.''"
proof -
  from assms(1)
  have "settled k (abbreviate k w) \<and> (abbreviate k w = w \<or> abbreviate k w = ''D.'')"
  proof (cases rule: settled_cases)
    case 1
    from initial_facts(1) [OF 1] 1 show ?thesis by (simp add: settled_def)
  next
    case 2
    with assms(2) have "abbreviate k w = ''D.''"
      by (simp add: abbreviate_def prefixes_def prepositions_def find_py_title)
    then show ?thesis by (simp add: settled_def initial_def)
  next
    case 3
    with assms(2) have "abbreviate k w = w" by (simp add: abbreviate_def)
    with 3 assms(2) show ?thesis by (simp add: settled_def)
  qed
  then show "settled k (abbreviate k w)" "abbreviate k w = w \<or> abbreviate k w = ''D.''"
    by simp_all
qed

lemma num_suffixes_none: "ws \<noteq> [] \<Longrightarrow> last ws \<notin> set suffixes \<Longrightarrow> num_suffixes ws = 0"
  by (cases ws rule: rev_cases) (simp_all add: num_suffixes_def)

lemma abbreviate_names_settled:
  assumes "\<forall>j < length ws - (1 + num_suffixes ws). settled j (ws ! j)"
  shows "abbreviate_names ws = ws"
proof (rule nth_equalityI)
  show "length (abbreviate_names ws) = length ws" by (rule length_abbreviate_names)
next
  fix i assume "i < length (abbreviate_names ws)"
  then have i: "i < length ws" by (simp add: length_abbreviate_names)
  show "abbreviate_names ws ! i = ws ! i"
  proof (cases "i < length ws - (1 + num_suffixes ws)")
    case True
    with assms have "settled i (ws ! i)" by blast
    then have "abbreviate i (ws ! i) = ws ! i" by (rule settled_facts(1))
    with True i show ?thesis by (simp add: abbreviate_names_nth)
  next
    case False
    with i show ?thesis by (simp add: abbreviate_names_nth)
  qed
qed

lemma capital_not_space: "c \<in> set ''ABCDEFGHIJKLMNOPQRSTUVWXYZ'' \<Longrightarrow> \<not> isspace c"
  by (auto simp: isspace_def)

lemma unmoved_name:
  assumes "t \<noteq> []" "already_abbreviated t" "\<not> is_initials (last (split_py CHR '' '' t))"
  shows "fst (process_author t) = t"
proof -
  let ?ws = "split_py CHR '' '' t"
  from assms(3) have "move_initials ?ws = ?ws" by (simp add: move_initials_def)
  moreover from assms(2) have "\<forall>j < length ?ws - (1 + num_suffixes ?ws). settled j (?ws ! j)"
    unfolding already_abbreviated_def given_words_all .
  then have "abbreviate_names ?ws = ?ws" by (rule abbreviate_names_settled)
  ultimately have n: "author_names t = ?ws" by (simp add: author_names_def)
  have "join_py '' '' ?ws = t" by (rule join_split)
  with assms(1) n split_py_not_Nil [of "CHR '' ''" t] show ?thesis
    by (simp add: process_author_def Let_def)
qed

lemma hd_join_py: "ws \<noteq> [] \<Longrightarrow> hd ws \<noteq> [] \<Longrightarrow> hd (join_py sep ws) = hd (hd ws)"
  by (cases ws; cases "tl ws") auto

lemma last_join_py: "ws \<noteq> [] \<Longrightarrow> last ws \<noteq> [] \<Longrightarrow> last (join_py sep ws) = last (last ws)"
proof (induction sep ws rule: join_py.induct)
  case (1 sep)
  then show ?case by simp
next
  case (2 sep x)
  then show ?case by simp
next
  case (3 sep x y ys)
  then have "join_py sep (y # ys) \<noteq> []"
    by (intro join_py_Nil [of "last (y # ys)"]) simp_all
  with 3 show ?case by simp
qed

lemma stable_words:
  assumes ne: "ws \<noteq> []"
    and st: "\<forall>j < length ws - (1 + num_suffixes ws). settled j (ws ! j)"
    and sp: "\<forall>w \<in> set ws. CHR '' '' \<notin> set w"
    and nl: "\<not> is_initials (last ws)"
    and hn: "hd ws \<noteq> []" and h: "\<not> isspace (hd (hd ws))"
    and ln: "last ws \<noteq> []" and l: "\<not> isspace (last (last ws))"
  shows "split_py CHR '' '' (join_py '' '' ws) = ws"
    "fst (process_author (join_py '' '' ws)) = join_py '' '' ws"
    "strip_py (join_py '' '' ws) = join_py '' '' ws"
proof -
  let ?d = "join_py '' '' ws"
  show s: "split_py CHR '' '' ?d = ws" using ne sp by (rule split_join)
  from ne hn have dn: "?d \<noteq> []" by (intro join_py_Nil [of "hd ws"]) simp_all
  from st have "already_abbreviated ?d"
    unfolding already_abbreviated_def given_words_all s .
  with dn nl show "fst (process_author ?d) = ?d"
    by (intro unmoved_name) (simp_all only: s simp_thms)
  from hd_join_py [OF ne hn] h have "\<not> isspace (hd ?d)" by simp
  moreover from last_join_py [OF ne ln] l have "\<not> isspace (last ?d)" by simp
  ultimately show "strip_py ?d = ?d" using dn by (rule strip_py_fix)
qed

lemma moved_words:
  fixes t :: string
  defines "ws \<equiv> split_py CHR '' '' t"
  defines "ms \<equiv> map (\<lambda>c. [c, CHR ''.'']) (last ws) @ butlast ws"
  defines "rs \<equiv> abbreviate_names ms"
  assumes mi: "is_initials (last ws)" and ln: "last ws \<noteq> []" and ab: "already_abbreviated t"
  shows "author_names t = rs" "rs \<noteq> []" "\<forall>j < length rs - 1. settled j (rs ! j)"
    "\<forall>w \<in> set rs. \<exists>j. settled j w" "hd rs \<noteq> []" "\<not> isspace (hd (hd rs))"
    "\<forall>w \<in> set rs. w \<in> set ms \<or> w = ''D.''"
    "\<forall>w \<in> set ms. CHR '' '' \<notin> set w \<and> set w \<subseteq> insert CHR ''.'' (set t)"
proof -
  let ?l = "last ws"
  let ?bs = "butlast ws"
  let ?is = "map (\<lambda>c. [c, CHR ''.'']) ?l"
  have wn: "ws \<noteq> []" unfolding ws_def by (rule split_py_not_Nil)
  from mi have "?l \<notin> set suffixes" by (simp add: is_initials_def)
  with wn have n: "num_suffixes ws = 0" by (rule num_suffixes_none)
  from ab have "\<forall>j < length ws - (1 + num_suffixes ws). settled j (ws ! j)"
    unfolding already_abbreviated_def given_words_all ws_def .
  with n have bs: "settled j (?bs ! j)" if "j < length ?bs" for j
    using that by (simp add: nth_butlast)
  have ms: "ms = ?is @ ?bs" by (simp add: ms_def)
  have li: "length ?is = length ?l" by simp
  from ln have lp: "0 < length ?l" by simp
  have isj: "?is ! j = [?l ! j, CHR ''.'']" if "j < length ?l" for j using that by simp
  have msn: "ms \<noteq> []" using ln by (simp add: ms_def)
  have lr: "length rs = length ms" unfolding rs_def by (rule length_abbreviate_names)
  show an: "author_names t = rs"
    using mi by (simp add: author_names_def move_initials_def rs_def ms_def ws_def)
  from msn lr show rn: "rs \<noteq> []" by auto
  have front: "initial (ms ! j)" if "j < length ?l" for j
    using that by (simp add: ms nth_append initial_def)
  have rear: "settled (j - length ?l) (ms ! j)" if "length ?l \<le> j" "j < length ms" for j
  proof -
    from that have "j - length ?l < length ?bs" by (simp add: ms)
    from bs [OF this] that(1) show ?thesis by (simp add: ms nth_append)
  qed
  have lastms: "\<exists>j. settled j (last ms)"
  proof (cases "?bs = []")
    case True
    with ln have "last ms = [last ?l, CHR ''.'']" by (simp add: ms last_map)
    then have "settled 0 (last ms)" by (simp add: settled_def initial_def)
    then show ?thesis ..
  next
    case False
    then have "last ms = last ?bs" by (simp add: ms)
    also from False have "\<dots> = ?bs ! (length ?bs - 1)" by (rule last_conv_nth)
    finally have "last ms = ?bs ! (length ?bs - 1)" .
    moreover from False have "length ?bs - 1 < length ?bs"
      by (cases ?bs) simp_all
    then have "settled (length ?bs - 1) (?bs ! (length ?bs - 1))" by (rule bs)
    ultimately show ?thesis by auto
  qed
  then obtain j0 where "settled j0 (last ms)" ..
  then have "last ms \<notin> set suffixes" by (rule settled_facts(2))
  with msn have nm: "num_suffixes ms = 0" by (rule num_suffixes_none)
  have rsj: "rs ! j = (if j < length ms - 1 then abbreviate j (ms ! j) else ms ! j)"
    if "j < length ms" for j
    using abbreviate_names_nth [OF that] nm by (simp add: rs_def)
  have inner: "settled j (rs ! j) \<and> (rs ! j = ms ! j \<or> rs ! j = ''D.'')"
    if j: "j < length ms - 1" for j
  proof (cases "j < length ?l")
    case True
    from front [OF True] have i: "initial (ms ! j)" .
    from j have "rs ! j = abbreviate j (ms ! j)" by (simp add: rsj)
    with initial_facts(1) [OF i] have "rs ! j = ms ! j" by simp
    with i show ?thesis by (simp add: settled_def)
  next
    case False
    with j have b: "settled (j - length ?l) (ms ! j)" by (intro rear) simp_all
    from False lp have "0 < j" by linarith
    from settled_shift [OF b this] j show ?thesis by (simp add: rsj)
  qed
  from inner lr show "\<forall>j < length rs - 1. settled j (rs ! j)" by simp
  have lastrs: "rs ! (length ms - 1) = last ms"
    using msn by (simp add: rsj last_conv_nth)
  have every: "(\<exists>j. settled j w) \<and> (w \<in> set ms \<or> w = ''D.'')" if "w \<in> set rs" for w
  proof -
    from that obtain j where j: "j < length ms" and w: "w = rs ! j"
      by (auto simp: in_set_conv_nth lr)
    show ?thesis
    proof (cases "j < length ms - 1")
      case True
      from inner [OF True] j show ?thesis unfolding w by (auto intro: nth_mem)
    next
      case False
      with j have "j = length ms - 1" by simp
      with lastrs have "w = last ms" by (simp add: w)
      with lastms msn show ?thesis by simp
    qed
  qed
  from every show "\<forall>w \<in> set rs. \<exists>j. settled j w" by blast
  from every show "\<forall>w \<in> set rs. w \<in> set ms \<or> w = ''D.''" by blast
  have "rs ! 0 = [hd ?l, CHR ''.'']"
  proof -
    from lp have "ms ! 0 = [hd ?l, CHR ''.'']"
      by (cases ?l) (simp_all add: ms)
    moreover from msn have "rs ! 0 = (if 0 < length ms - 1 then abbreviate 0 (ms ! 0) else ms ! 0)"
      by (intro rsj) simp
    ultimately show ?thesis by (simp add: abbreviate_initial)
  qed
  with rn have h: "hd rs = [hd ?l, CHR ''.'']" by (simp add: hd_conv_nth)
  then show "hd rs \<noteq> []" by simp
  from mi ln have "hd ?l \<in> set ''ABCDEFGHIJKLMNOPQRSTUVWXYZ''"
    by (cases ?l) (simp_all add: is_initials_def ascii_uppercase_def)
  then have "\<not> isspace (hd ?l)" by (rule capital_not_space)
  with h show "\<not> isspace (hd (hd rs))" by simp
  have lm: "?l \<in> set (split_py CHR '' '' t)" unfolding ws_def by (simp add: split_py_not_Nil)
  then have ls: "CHR '' '' \<notin> set ?l" by (rule split_py_no_sep)
  from lm have lt: "set ?l \<subseteq> set t" by (rule split_py_set)
  show "\<forall>w \<in> set ms. CHR '' '' \<notin> set w \<and> set w \<subseteq> insert CHR ''.'' (set t)"
  proof
    fix w assume "w \<in> set ms"
    then consider c where "c \<in> set ?l" "w = [c, CHR ''.'']" | "w \<in> set ?bs"
      by (auto simp: ms)
    then show "CHR '' '' \<notin> set w \<and> set w \<subseteq> insert CHR ''.'' (set t)"
    proof cases
      case 1
      with ls lt show ?thesis by auto
    next
      case 2
      then have m: "w \<in> set (split_py CHR '' '' t)"
        unfolding ws_def by (rule in_set_butlastD)
      from split_py_no_sep [OF m] split_py_set [OF m] show ?thesis by auto
    qed
  qed
qed

lemma set_join_py_bound:
  assumes "\<forall>w \<in> set ws. set w \<subseteq> A"
  shows "set (join_py sep ws) \<subseteq> set sep \<union> A"
  using set_join_py [of sep ws] assms by blast

lemma token_result:
  assumes t: "t \<in> set (tokens s)" and ab: "already_abbreviated t"
    and na: "\<not> has_word ''and'' t" and nb: "CHR ''{'' \<notin> set t"
  defines "u \<equiv> fst (process_author t)"
  shows "CHR '','' \<notin> set u \<and> CHR '';'' \<notin> set u \<and> CHR ''{'' \<notin> set u"
    "strip_py u = u" "''and'' \<notin> set (split_py CHR '' '' u)" "fst (process_author u) = u"
proof -
  let ?ws = "split_py CHR '' '' t"
  note tf = token_facts [OF t]
  consider "t = []" | "t \<noteq> []" "\<not> is_initials (last ?ws)" | "t \<noteq> []" "is_initials (last ?ws)"
    by blast
  then have "(CHR '','' \<notin> set u \<and> CHR '';'' \<notin> set u \<and> CHR ''{'' \<notin> set u) \<and>
    strip_py u = u \<and> ''and'' \<notin> set (split_py CHR '' '' u) \<and> fst (process_author u) = u"
  proof cases
    case 1
    then have "u = []" by (simp add: u_def process_author_Nil)
    then show ?thesis by (simp add: process_author_Nil strip_py_def)
  next
    case 2
    from unmoved_name [OF 2(1) ab 2(2)] have "u = t" by (simp add: u_def)
    with tf na nb unmoved_name [OF 2(1) ab 2(2)] show ?thesis
      by (simp add: has_word_def)
  next
    case 3
    from tf(3) have "t = strip_py t" by simp
    with 3(1) strip_py_last [of t] isspace_space have "last t \<noteq> CHR '' ''" by metis
    with 3(1) have ln: "last ?ws \<noteq> []" by (rule split_py_last)
    let ?ms = "map (\<lambda>c. [c, CHR ''.'']) (last ?ws) @ butlast ?ws"
    let ?rs = "abbreviate_names ?ms"
    note mw = moved_words [OF 3(2) ln ab]
    from mw(1,2) 3(1) have u: "u = join_py '' '' ?rs"
      by (simp add: u_def process_author_def Let_def)
    have words: "CHR '' '' \<notin> set w \<and> set w \<subseteq> set ''D.'' \<union> insert CHR ''.'' (set t)"
      if "w \<in> set ?rs" for w
    proof -
      from mw(7) that consider "w \<in> set ?ms" | "w = ''D.''" by blast
      then show ?thesis
      proof cases
        case 1
        with mw(8) show ?thesis by blast
      next
        case 2
        then show ?thesis by simp
      qed
    qed
    have st: "\<forall>j < length ?rs - (1 + num_suffixes ?rs). settled j (?rs ! j)"
      using mw(3) by simp
    have sp: "\<forall>w \<in> set ?rs. CHR '' '' \<notin> set w" using words by blast
    from mw(2) have "last ?rs \<in> set ?rs" by simp
    with mw(4) obtain j where "settled j (last ?rs)" by blast
    note lf = settled_facts [OF this]
    note sn = stable_words [OF mw(2) st sp lf(3) mw(5,6) lf(5,6)]
    have "\<forall>w \<in> set ?rs. set w \<subseteq> set ''D.'' \<union> insert CHR ''.'' (set t)"
      using words by blast
    then have "set u \<subseteq> set '' '' \<union> (set ''D.'' \<union> insert CHR ''.'' (set t))"
      unfolding u by (rule set_join_py_bound)
    with tf(1,2) nb have "CHR '','' \<notin> set u \<and> CHR '';'' \<notin> set u \<and> CHR ''{'' \<notin> set u"
      by auto
    moreover have "''and'' \<notin> set ?rs"
    proof
      assume "''and'' \<in> set ?rs"
      with mw(4) obtain k where "settled k ''and''" by blast
      from settled_facts(4) [OF this] show False by simp
    qed
    ultimately show ?thesis using sn by (simp only: u simp_thms)
  qed
  then show "CHR '','' \<notin> set u \<and> CHR '';'' \<notin> set u \<and> CHR ''{'' \<notin> set u"
    "strip_py u = u" "''and'' \<notin> set (split_py CHR '' '' u)" "fst (process_author u) = u"
    by blast+
qed

lemma rerun_same:
  assumes nw: "\<not> wrapped (authors f)"
    and ab: "\<forall>t \<in> set (tokens (authors f)). already_abbreviated t"
    and nb: "\<forall>t \<in> set (tokens (authors f)). CHR ''{'' \<notin> set t"
    and na: "\<forall>t \<in> set (tokens (authors f)). \<not> has_word ''and'' t"
  shows "\<exists>p q. init f = Inr p \<and> init (f\<lparr>authors := authors p\<rparr>) = Inr q \<and>
     authors_list q = authors_list p \<and> authors q = authors p"
proof -
  let ?ts = "tokens (authors f)"
  define l where "l = map (fst \<circ> process_author) ?ts"
  from init_plain_lists [OF nw] obtain p where p: "init f = Inr p"
    and d': "display_string l = Inr (authors p)" and pl: "authors_list p = l"
    unfolding l_def by blast
  define d where "d = authors p"
  from d' have d: "display_string l = Inr d" by (simp add: d_def)
  have res: "(CHR '','' \<notin> set u \<and> CHR '';'' \<notin> set u \<and> CHR ''{'' \<notin> set u) \<and>
      strip_py u = u \<and> ''and'' \<notin> set (split_py CHR '' '' u) \<and> fst (process_author u) = u"
    if "u \<in> set l" for u
  proof -
    from that obtain t where t: "t \<in> set ?ts" and u: "u = fst (process_author t)"
      by (auto simp: l_def)
    from t ab nb na have "already_abbreviated t" "\<not> has_word ''and'' t" "CHR ''{'' \<notin> set t"
      by blast+
    from token_result [OF t this] show ?thesis unfolding u by blast
  qed
  have good: "\<forall>u \<in> set l. CHR '','' \<notin> set u \<and> CHR '';'' \<notin> set u \<and>
     \<not> prefix ''and '' (u @ '' '') \<and> \<not> sublist '' and '' (u @ '' '')"
  proof
    fix u assume u: "u \<in> set l"
    from res [OF u] have c: "CHR '','' \<notin> set u" "CHR '';'' \<notin> set u"
      and w: "''and'' \<notin> set (split_py CHR '' '' u)"
      by simp_all
    from c no_and_word [OF w]
    show "CHR '','' \<notin> set u \<and> CHR '';'' \<notin> set u \<and>
     \<not> prefix ''and '' (u @ '' '') \<and> \<not> sublist '' and '' (u @ '' '')"
      by simp
  qed
  have strip: "\<forall>u \<in> set l. strip_py u = u"
  proof
    fix u assume "u \<in> set l"
    from res [OF this] show "strip_py u = u" by simp
  qed
  have brace: "\<forall>u \<in> set l. CHR ''{'' \<notin> set u"
  proof
    fix u assume "u \<in> set l"
    from res [OF this] show "CHR ''{'' \<notin> set u" by simp
  qed
  have fixed: "map (fst \<circ> process_author) l = l"
  proof (rule map_idI)
    fix u assume "u \<in> set l"
    from res [OF this] have "fst (process_author u) = u" by simp
    then show "(fst \<circ> process_author) u = u" by simp
  qed
  have td: "tokens d = l" using good strip d by (rule tokens_display)
  have ad: "authors (f\<lparr>authors := d\<rparr>) = d" by simp
  have nw': "\<not> wrapped (authors (f\<lparr>authors := d\<rparr>))"
    using display_string_not_wrapped [OF d brace] by simp
  have e: "map (fst \<circ> process_author) (tokens (authors (f\<lparr>authors := d\<rparr>))) = l"
    by (simp only: ad td fixed)
  from init_plain_lists [OF nw'] obtain q where q: "init (f\<lparr>authors := d\<rparr>) = Inr q"
    and qa: "display_string l = Inr (authors q)" and ql: "authors_list q = l"
    unfolding e by blast
  from qa d have "authors q = d" by simp
  with p q pl ql show ?thesis by (simp add: d_def)
qed

subsection \<open>The second run returns the names of the first\<close>

text \<open>
  C8, as the code has it. Let the authors string not be wrapped in braces, and let every
  name that the tokenizer cuts from it be abbreviated already: every word before the last
  name and the suffixes behind it is an initial (one character and a full stop), the
  title "Dr." in the first place, or a preposition behind the first place. Let no name hold
  a dash or a brace, and let no name have the word "and". Then the constructor returns a
  record, the constructor run again on the authors string of that record returns a record
  too, and the second record has the authors list and the authors string of the first.
  The last word may be a group of capitals, as in "K. NG": the first run moves them to the
  front as initials (line 118), and the second run finds nothing left to move or to
  abbreviate.
\<close>

theorem rerun_abbreviated:
  "\<not> wrapped (authors f) \<and>
   (\<forall>t \<in> set (tokens (authors f)).
      already_abbreviated t \<and> CHR ''-'' \<notin> set t \<and> CHR ''{'' \<notin> set t \<and> CHR ''}'' \<notin> set t \<and>
      \<not> has_word ''and'' t) \<longrightarrow>
   (\<exists>p q. init f = Inr p \<and> init (f\<lparr>authors := authors p\<rparr>) = Inr q \<and>
      authors_list q = authors_list p \<and> authors q = authors p)"
proof
  assume a: "\<not> wrapped (authors f) \<and>
   (\<forall>t \<in> set (tokens (authors f)).
      already_abbreviated t \<and> CHR ''-'' \<notin> set t \<and> CHR ''{'' \<notin> set t \<and> CHR ''}'' \<notin> set t \<and>
      \<not> has_word ''and'' t)"
  then have "\<not> wrapped (authors f)"
    "\<forall>t \<in> set (tokens (authors f)). already_abbreviated t"
    "\<forall>t \<in> set (tokens (authors f)). CHR ''{'' \<notin> set t"
    "\<forall>t \<in> set (tokens (authors f)). \<not> has_word ''and'' t"
    by blast+
  from rerun_same [OF this]
  show "\<exists>p q. init f = Inr p \<and> init (f\<lparr>authors := authors p\<rparr>) = Inr q \<and>
      authors_list q = authors_list p \<and> authors q = authors p"
    by blast
qed


lemma tokens_ng:
  "tokens ''K. NG, L. van Beek, and C. Lee Jr.'' = [''K. NG'', ''L. van Beek'', ''C. Lee Jr.'']"
  by code_simp

lemma abbreviated_ng:
  "already_abbreviated ''K. NG''" "already_abbreviated ''L. van Beek''"
  "already_abbreviated ''C. Lee Jr.''"
  by code_simp+

lemma no_and_ng:
  "\<not> has_word ''and'' ''K. NG''" "\<not> has_word ''and'' ''L. van Beek''"
  "\<not> has_word ''and'' ''C. Lee Jr.''"
  by code_simp+

lemma init_ng:
  "init (example_fields ''K. NG, L. van Beek, and C. Lee Jr.'') =
     Inr \<lparr>pk = None, title = ''On numbers'',
          authors = ''N. G. K., L. van Beek, and C. Lee Jr.'',
          keywords_field = ''algebra'', year = Some 2020, month = Some 1,
          authors_list = [''N. G. K.'', ''L. van Beek'', ''C. Lee Jr.''],
          authors_list_simple = Some [''n. k.'', ''l. beek'', ''c. jr.''],
          authors_bibtex = Some ''N. G. K. and L. van Beek and C. Lee Jr.'',
          title_ends_with_punct = Some False\<rparr>"
  by code_simp

lemma update_example: "(example_fields a)\<lparr>authors := b\<rparr> = example_fields b"
  by (simp add: example_fields_def)

theorem rerun_abbreviated_witness:
  "\<not> wrapped ''K. NG, L. van Beek, and C. Lee Jr.'' \<and>
   tokens ''K. NG, L. van Beek, and C. Lee Jr.'' = [''K. NG'', ''L. van Beek'', ''C. Lee Jr.''] \<and>
   (\<exists>p. init (example_fields ''K. NG, L. van Beek, and C. Lee Jr.'') = Inr p \<and>
      authors_list p = [''N. G. K.'', ''L. van Beek'', ''C. Lee Jr.''] \<and>
      authors p = ''N. G. K., L. van Beek, and C. Lee Jr.'') \<and>
   (\<exists>q. init (example_fields ''N. G. K., L. van Beek, and C. Lee Jr.'') = Inr q \<and>
      authors_list q = [''N. G. K.'', ''L. van Beek'', ''C. Lee Jr.''] \<and>
      authors q = ''N. G. K., L. van Beek, and C. Lee Jr.'')"
proof -
  let ?f = "example_fields ''K. NG, L. van Beek, and C. Lee Jr.''"
  have a: "authors ?f = ''K. NG, L. van Beek, and C. Lee Jr.''" by (simp add: example_fields_def)
  have w: "\<not> wrapped ''K. NG, L. van Beek, and C. Lee Jr.''" by (simp add: wrapped_def)
  have "\<forall>t \<in> set (tokens (authors ?f)).
      already_abbreviated t \<and> CHR ''-'' \<notin> set t \<and> CHR ''{'' \<notin> set t \<and> CHR ''}'' \<notin> set t \<and>
      \<not> has_word ''and'' t"
    by (simp add: a tokens_ng abbreviated_ng no_and_ng)
  with w a rerun_abbreviated [of ?f] tokens_ng show ?thesis
    by (simp add: init_ng update_example)
qed

lemma init_and_name:
  "init (example_fields ''A. and, B. Cy'') =
     Inr \<lparr>pk = None, title = ''On numbers'', authors = ''A. and and B. Cy'',
          keywords_field = ''algebra'', year = Some 2020, month = Some 1,
          authors_list = [''A. and'', ''B. Cy''],
          authors_list_simple = Some [''a. and'', ''b. cy''],
          authors_bibtex = Some ''A. and and B. Cy'',
          title_ends_with_punct = Some False\<rparr>"
  by code_simp

lemma init_and_name_again:
  "init (example_fields ''A. and and B. Cy'') =
     Inr \<lparr>pk = None, title = ''On numbers'', authors = ''A. and a. B. Cy'',
          keywords_field = ''algebra'', year = Some 2020, month = Some 1,
          authors_list = [''A.'', ''a. B. Cy''],
          authors_list_simple = Some [''a.'', ''a. cy''],
          authors_bibtex = Some ''A. and a. B. Cy'',
          title_ends_with_punct = Some False\<rparr>"
  by code_simp

lemma init_md:
  "init (example_fields ''K. NG MD'') =
     Inr \<lparr>pk = None, title = ''On numbers'', authors = ''M. D. K. NG'',
          keywords_field = ''algebra'', year = Some 2020, month = Some 1,
          authors_list = [''M. D. K. NG''],
          authors_list_simple = Some [''m. ng''],
          authors_bibtex = Some ''M. D. K. NG'',
          title_ends_with_punct = Some False\<rparr>"
  by code_simp

lemma init_md_again:
  "init (example_fields ''M. D. K. NG'') =
     Inr \<lparr>pk = None, title = ''On numbers'', authors = ''N. G. M. D. K.'',
          keywords_field = ''algebra'', year = Some 2020, month = Some 1,
          authors_list = [''N. G. M. D. K.''],
          authors_list_simple = Some [''n. k.''],
          authors_bibtex = Some ''N. G. M. D. K.'',
          title_ends_with_punct = Some False\<rparr>"
  by code_simp

lemma tokens_counter:
  "tokens ''A. and, B. Cy'' = [''A. and'', ''B. Cy'']" "tokens ''K. NG MD'' = [''K. NG MD'']"
  by code_simp+

lemma abbreviated_counter:
  "already_abbreviated ''A. and''" "already_abbreviated ''B. Cy''"
  "widely_abbreviated ''K. NG MD''"
  by code_simp+

text \<open>
  C8 as the specification words it, for abbreviated names without dashes or braces, fails
  in two ways. A name with the word "and", as in "A. and, B. Cy": the first run writes
  the authors string "A. and and B. Cy", and the second run reads the first " and " as a
  separator (line 89), abbreviates the second "and", and returns the names "A." and
  "a. B. Cy". And a name whose abbreviations before the last word are groups of capitals
  rather than initials, as in "K. NG MD": the first run returns "M. D. K. NG", and the
  second moves "NG" to the front as well (line 118) and returns "N. G. M. D. K.".
\<close>

theorem rerun_counterexample:
  "\<not> (\<not> wrapped (authors (example_fields ''A. and, B. Cy'')) \<and>
       (\<forall>t \<in> set (tokens (authors (example_fields ''A. and, B. Cy''))).
          already_abbreviated t \<and> CHR ''-'' \<notin> set t \<and> CHR ''{'' \<notin> set t \<and> CHR ''}'' \<notin> set t) \<longrightarrow>
       (\<exists>p q. init (example_fields ''A. and, B. Cy'') = Inr p \<and>
          init ((example_fields ''A. and, B. Cy'')\<lparr>authors := authors p\<rparr>) = Inr q \<and>
          authors_list q = authors_list p)) \<and>
   \<not> (\<not> wrapped (authors (example_fields ''K. NG MD'')) \<and>
       (\<forall>t \<in> set (tokens (authors (example_fields ''K. NG MD''))).
          widely_abbreviated t \<and> \<not> has_word ''and'' t \<and>
          CHR ''-'' \<notin> set t \<and> CHR ''{'' \<notin> set t \<and> CHR ''}'' \<notin> set t) \<longrightarrow>
       (\<exists>p q. init (example_fields ''K. NG MD'') = Inr p \<and>
          init ((example_fields ''K. NG MD'')\<lparr>authors := authors p\<rparr>) = Inr q \<and>
          authors_list q = authors_list p))"
proof -
  have a: "authors (example_fields ''A. and, B. Cy'') = ''A. and, B. Cy''"
    "authors (example_fields ''K. NG MD'') = ''K. NG MD''"
    by (simp_all add: example_fields_def)
  have w: "\<not> wrapped ''A. and, B. Cy''" "\<not> wrapped ''K. NG MD''" by (simp_all add: wrapped_def)
  have h1: "\<forall>t \<in> set (tokens ''A. and, B. Cy'').
          already_abbreviated t \<and> CHR ''-'' \<notin> set t \<and> CHR ''{'' \<notin> set t \<and> CHR ''}'' \<notin> set t"
    by (simp add: tokens_counter abbreviated_counter)
  have nw: "\<not> has_word ''and'' ''K. NG MD''" by code_simp
  have h2: "\<forall>t \<in> set (tokens ''K. NG MD'').
          widely_abbreviated t \<and> \<not> has_word ''and'' t \<and>
          CHR ''-'' \<notin> set t \<and> CHR ''{'' \<notin> set t \<and> CHR ''}'' \<notin> set t"
    by (simp add: tokens_counter abbreviated_counter nw)
  have c1: "\<not> (\<exists>p q. init (example_fields ''A. and, B. Cy'') = Inr p \<and>
          init ((example_fields ''A. and, B. Cy'')\<lparr>authors := authors p\<rparr>) = Inr q \<and>
          authors_list q = authors_list p)"
    by (simp add: init_and_name update_example init_and_name_again)
  have c2: "\<not> (\<exists>p q. init (example_fields ''K. NG MD'') = Inr p \<and>
          init ((example_fields ''K. NG MD'')\<lparr>authors := authors p\<rparr>) = Inr q \<and>
          authors_list q = authors_list p)"
    by (simp add: init_md update_example init_md_again)
  from w h1 h2 c1 c2 show ?thesis by (simp only: a simp_thms not_imp)
qed

end
